theory Spec2Isabelle
  imports Main "HOL-Library.Word"
begin

unbundle bit_operations_syntax

section \<open>The virtual memory manager of \<^verbatim>\<open>vmm.c\<close>\<close>

text \<open>
  The program translates logical addresses to physical addresses with a 16-entry TLB, a
  256-entry page table, 256 frames of 256 bytes and a backing store that is read on a page
  fault. All its tables are global variables; the model passes them around in one record.

  Conventions of the model:
  \<^item> \<^verbatim>\<open>int\<close> variables are HOL integers. The tables hold values between \<open>-1\<close> and 255; the
    two counters grow by one per request, so they stay far from the 32-bit limit on every
    run of fewer than \<open>2^31\<close> requests (beyond that C leaves the increment undefined).
  \<^item> \<^verbatim>\<open>unsigned int\<close> is \<open>32 word\<close>, \<^verbatim>\<open>signed char\<close> is \<open>8 word\<close> read with \<open>sint\<close>.
  \<^item> A C array is a list; its declared size is the length the list has in every state the
    program starts from.
  \<^item> An array access by a computed index is guarded: where the index is outside the
    array, C leaves the behaviour undefined and the model returns \<open>None\<close>. The one
    exception is the read \<^verbatim>\<open>physical_memory[frame_number][offset]\<close> in \<^verbatim>\<open>main\<close>, which
    writes no table: the model records it in the output of the request (the value read is
    \<open>None\<close>) and goes on, as the compiled program does.
  \<^item> The two library calls on the backing store, \<^verbatim>\<open>fseek\<close> and \<^verbatim>\<open>fread\<close>, are inputs: each
    request carries what they would return if the request reaches them.
  \<^item> Reading the address file is not modelled either: a request carries the number that
    \<^verbatim>\<open>atoi\<close> returned for one \<^verbatim>\<open>fgets\<close>, converted to \<^verbatim>\<open>unsigned int\<close> as the calls of
    \<^verbatim>\<open>get_page_number\<close> and \<^verbatim>\<open>get_offset\<close> convert it. Both files are taken to be open.
  \<^item> The messages on \<^verbatim>\<open>stderr\<close> are not modelled.
\<close>

subsection \<open>Data\<close>

type_synonym byte = "8 word"

text \<open>\<^verbatim>\<open>struct tlb_entry\<close>.\<close>

record tlb_entry =
  page_number :: int
  frame_number :: int
  valid :: int

text \<open>The global variables that live across requests.\<close>

record vmm =
  physical_memory :: "byte list list"
  page_table :: "int list"
  page_faults :: int
  tlb_hits :: int
  free_frames :: "int list"
  number_of_free_frames :: int
  next_free_tlb_index :: int
  tlb :: "tlb_entry list"
  temp_frame :: "byte list"

text \<open>
  What the backing store answers during one page fault: the value \<^verbatim>\<open>fseek\<close> returns and
  the bytes \<^verbatim>\<open>fread\<close> delivers (it returns their number; at most 256 are asked for).
\<close>

record backing_io =
  fseek_result :: int
  fread_data :: "byte list"

type_synonym request = "32 word \<times> backing_io"

text \<open>
  One line of the report: the three numbers of the \<^verbatim>\<open>printf\<close> in the loop of \<^verbatim>\<open>main\<close>.
  \<open>value_read = None\<close> says that the read of \<^verbatim>\<open>physical_memory\<close> was outside the array.
\<close>

record report_line =
  logical_address :: int
  physical_address :: int
  value_read :: "int option"

definition PAGE_NUMBER_MASK :: "32 word" where
  "PAGE_NUMBER_MASK = 65280"

definition OFFSET_MASK :: "32 word" where
  "OFFSET_MASK = 255"

definition TLB_SIZE :: nat where
  "TLB_SIZE = 16"

subsection \<open>Address decomposition\<close>

definition get_page_number :: "32 word \<Rightarrow> int" where
  "get_page_number address = uint (drop_bit 8 (address AND PAGE_NUMBER_MASK))"

definition get_offset :: "32 word \<Rightarrow> int" where
  "get_offset address = uint (address AND OFFSET_MASK)"

subsection \<open>Initialisation\<close>

text \<open>The three loops of the \<^verbatim>\<open>init_\<close> functions, each over the indices of its array.\<close>

definition init_page_table :: "vmm \<Rightarrow> vmm" where
  "init_page_table s =
     s\<lparr>page_table := fold (\<lambda>i pt. pt[i := - 1]) [0..<256] (page_table s)\<rparr>"

definition init_physical_memory :: "vmm \<Rightarrow> vmm" where
  "init_physical_memory s =
     s\<lparr>free_frames := fold (\<lambda>i ff. ff[i := 1]) [0..<256] (free_frames s),
       number_of_free_frames := 256\<rparr>"

definition init_tlb :: "vmm \<Rightarrow> vmm" where
  "init_tlb s =
     s\<lparr>tlb := fold (\<lambda>i t. t[i := (t ! i)\<lparr>valid := - 1, page_number := - 1, frame_number := - 1\<rparr>])
                 [0..<TLB_SIZE] (tlb s),
       next_free_tlb_index := 0\<rparr>"

text \<open>
  The globals before \<^verbatim>\<open>main\<close> runs: C zero-initialises objects of static storage
  duration; \<^verbatim>\<open>page_faults\<close> and \<^verbatim>\<open>tlb_hits\<close> are initialised to 0 explicitly.
\<close>

definition startup :: vmm where
  "startup =
     \<lparr>physical_memory = replicate 256 (replicate 256 0),
      page_table = replicate 256 0,
      page_faults = 0,
      tlb_hits = 0,
      free_frames = replicate 256 0,
      number_of_free_frames = 0,
      next_free_tlb_index = 0,
      tlb = replicate 16 \<lparr>page_number = 0, frame_number = 0, valid = 0\<rparr>,
      temp_frame = replicate 256 0\<rparr>"

text \<open>The state when the loop of \<^verbatim>\<open>main\<close> starts.\<close>

definition initial_state :: vmm where
  "initial_state = init_tlb (init_page_table (init_physical_memory startup))"

subsection \<open>The frame allocator\<close>

text \<open>
  \<^verbatim>\<open>while (free_frames[i] == -1) i++;\<close> The loop has no bound of its own: past the end of
  the array the model returns \<open>None\<close>.
\<close>

function scan_free_frames :: "int list \<Rightarrow> nat \<Rightarrow> nat option" where
  "scan_free_frames ff i =
     (if i < length ff
      then (if ff ! i = - 1 then scan_free_frames ff (i + 1) else Some i)
      else None)"
  by pat_completeness auto
termination
  by (relation "measure (\<lambda>(ff, i). length ff - i)") auto

declare scan_free_frames.simps [simp del]

definition get_next_free_frame :: "vmm \<Rightarrow> (int \<times> vmm) option" where
  "get_next_free_frame s =
     (if number_of_free_frames s > 0
      then (case scan_free_frames (free_frames s) 0 of
              None \<Rightarrow> None
            | Some i \<Rightarrow>
                Some (int i,
                      s\<lparr>free_frames := (free_frames s)[i := - 1],
                        number_of_free_frames := number_of_free_frames s - 1\<rparr>))
      else Some (- 1, s))"

subsection \<open>The TLB\<close>

text \<open>The \<^verbatim>\<open>for\<close> loop of \<^verbatim>\<open>check_tlb\<close>, from slot \<open>i\<close> on; it stops at the first match.\<close>

function check_tlb_loop :: "vmm \<Rightarrow> int \<Rightarrow> nat \<Rightarrow> int \<times> vmm" where
  "check_tlb_loop s pn i =
     (if i < TLB_SIZE
      then (if page_number (tlb s ! i) = pn \<and> valid (tlb s ! i) = 1
            then (frame_number (tlb s ! i), s\<lparr>tlb_hits := tlb_hits s + 1\<rparr>)
            else check_tlb_loop s pn (i + 1))
      else (- 1, s))"
  by pat_completeness auto
termination
  by (relation "measure (\<lambda>(s, pn, i). TLB_SIZE - i)") auto

declare check_tlb_loop.simps [simp del]

definition check_tlb :: "vmm \<Rightarrow> int \<Rightarrow> int \<times> vmm" where
  "check_tlb s pn = check_tlb_loop s pn 0"

definition update_tlb :: "vmm \<Rightarrow> int \<Rightarrow> int \<Rightarrow> vmm option" where
  "update_tlb s pn fn =
     (let k = next_free_tlb_index s in
      if 0 \<le> k \<and> k < int TLB_SIZE
      then Some (s\<lparr>tlb := (tlb s)[nat k := \<lparr>page_number = pn, frame_number = fn, valid = 1\<rparr>],
                  next_free_tlb_index := (k + 1) mod int TLB_SIZE\<rparr>)
      else None)"

subsection \<open>The page table\<close>

text \<open>
  \<^verbatim>\<open>check_page_table\<close>. The result of \<^verbatim>\<open>fseek\<close> is compared with 0 only to print a message,
  so it does not appear below; \<^verbatim>\<open>fread\<close> overwrites the first bytes of \<^verbatim>\<open>temp_frame\<close>
  with what it delivers, and only a count of 0 ends the function early.
\<close>

definition check_page_table :: "vmm \<Rightarrow> backing_io \<Rightarrow> int \<Rightarrow> (int \<times> vmm) option" where
  "check_page_table s io pn =
     (if 0 \<le> pn \<and> pn < 256
      then
        (let fn = page_table s ! nat pn in
         if fn = - 1
         then
           (let s1 = s\<lparr>page_faults := page_faults s + 1\<rparr>;
                data = take 256 (fread_data io);
                s2 = s1\<lparr>temp_frame := data @ drop (length data) (temp_frame s1)\<rparr>
            in if length data = 0
               then Some (- 1, s2)
               else (case get_next_free_frame s2 of
                       None \<Rightarrow> None
                     | Some (fn', s3) \<Rightarrow>
                         (let s4 = s3\<lparr>page_table := (page_table s3)[nat pn := fn']\<rparr>;
                              s5 = (if fn' \<ge> 0
                                    then s4\<lparr>physical_memory :=
                                              (physical_memory s4)[nat fn' := temp_frame s4]\<rparr>
                                    else s4)
                          in (case update_tlb s5 pn fn' of
                                None \<Rightarrow> None
                              | Some s6 \<Rightarrow> Some (fn', s6)))))
         else Some (fn, s))
      else None)"

subsection \<open>The loop of \<^verbatim>\<open>main\<close>\<close>

text \<open>\<^verbatim>\<open>physical_memory[frame_number][offset]\<close>, \<open>None\<close> outside the array.\<close>

definition read_physical_memory :: "vmm \<Rightarrow> int \<Rightarrow> int \<Rightarrow> int option" where
  "read_physical_memory s fn off =
     (if 0 \<le> fn \<and> fn < 256 \<and> 0 \<le> off \<and> off < 256
      then Some (sint (physical_memory s ! nat fn ! nat off))
      else None)"

text \<open>
  Lines 321 to 334: the address is split, the TLB is asked, and on a miss the page table.
  The result is the frame number \<^verbatim>\<open>main\<close> goes on with.
\<close>

definition resolve :: "vmm \<Rightarrow> request \<Rightarrow> (int \<times> vmm) option" where
  "resolve s rq =
     (let pn = get_page_number (fst rq);
          (fn, s1) = check_tlb s pn
      in if fn = - 1 then check_page_table s1 (snd rq) pn else Some (fn, s1))"

text \<open>One pass through the loop body: \<open>resolve\<close>, then lines 337 to 341.\<close>

definition main_iteration :: "vmm \<Rightarrow> request \<Rightarrow> (report_line \<times> vmm) option" where
  "main_iteration s rq =
     (case resolve s rq of
        None \<Rightarrow> None
      | Some (fn, s') \<Rightarrow>
          Some (\<lparr>logical_address = sint (fst rq),
                 physical_address = fn * 256 + get_offset (fst rq),
                 value_read = read_physical_memory s' fn (get_offset (fst rq))\<rparr>,
                s'))"

text \<open>The loop over the address file, from any state.\<close>

fun run :: "vmm \<Rightarrow> request list \<Rightarrow> (report_line list \<times> vmm) option" where
  "run s [] = Some ([], s)"
| "run s (rq # rqs) =
     (case main_iteration s rq of
        None \<Rightarrow> None
      | Some (out, s') \<Rightarrow>
          (case run s' rqs of
             None \<Rightarrow> None
           | Some (outs, s'') \<Rightarrow> Some (out # outs, s'')))"

section \<open>Notions used in the statements\<close>

subsection \<open>The TLB\<close>

text \<open>The test of \<^verbatim>\<open>check_tlb\<close>: the entry is valid and holds the page.\<close>

definition tlb_match :: "int \<Rightarrow> tlb_entry \<Rightarrow> bool" where
  "tlb_match pn e \<longleftrightarrow> page_number e = pn \<and> valid e = 1"

text \<open>The TLB has its 16 slots and the cursor points at one of them.\<close>

definition tlb_ok :: "vmm \<Rightarrow> bool" where
  "tlb_ok s \<longleftrightarrow>
     length (tlb s) = TLB_SIZE \<and> 0 \<le> next_free_tlb_index s \<and> next_free_tlb_index s < int TLB_SIZE"

definition valid_count :: "vmm \<Rightarrow> nat" where
  "valid_count s = length (filter (\<lambda>e. valid e = 1) (tlb s))"

text \<open>A sequence of calls of \<^verbatim>\<open>update_tlb\<close>, one per (page, frame) pair, in order.\<close>

fun insert_all :: "vmm \<Rightarrow> (int \<times> int) list \<Rightarrow> vmm option" where
  "insert_all s [] = Some s"
| "insert_all s (x # xs) =
     (case update_tlb s (fst x) (snd x) of None \<Rightarrow> None | Some s' \<Rightarrow> insert_all s' xs)"

subsection \<open>The frames\<close>

text \<open>The free list: the frames that \<^verbatim>\<open>free_frames\<close> does not mark with \<open>-1\<close>.\<close>

definition free_set :: "vmm \<Rightarrow> nat set" where
  "free_set s = {f. f < length (free_frames s) \<and> free_frames s ! f \<noteq> - 1}"

text \<open>The counter \<^verbatim>\<open>number_of_free_frames\<close> agrees with the free list.\<close>

definition frames_ok :: "vmm \<Rightarrow> bool" where
  "frames_ok s \<longleftrightarrow>
     length (free_frames s) = 256 \<and> number_of_free_frames s = int (card (free_set s))"

subsection \<open>Requests\<close>

definition page_of :: "request \<Rightarrow> int" where
  "page_of rq = get_page_number (fst rq)"

text \<open>
  The request reaches lines 271 to 280 of \<^verbatim>\<open>check_page_table\<close>: the TLB misses, the page
  table has no frame for the page and \<^verbatim>\<open>fread\<close> delivers at least one byte, so a frame is
  taken and the bytes are copied into it.
\<close>

definition loads_page :: "vmm \<Rightarrow> request \<Rightarrow> bool" where
  "loads_page s rq \<longleftrightarrow>
     fst (check_tlb s (page_of rq)) = - 1 \<and> page_table s ! nat (page_of rq) = - 1 \<and>
     fread_data (snd rq) \<noteq> []"

text \<open>\<^verbatim>\<open>temp_frame\<close> after the \<^verbatim>\<open>fread\<close> of a page fault.\<close>

definition loaded_frame :: "vmm \<Rightarrow> backing_io \<Rightarrow> byte list" where
  "loaded_frame s io =
     take 256 (fread_data io) @ drop (length (take 256 (fread_data io))) (temp_frame s)"

text \<open>
  The state after a page fault on page \<open>pn\<close> that loaded the page into frame \<open>k\<close>; that
  \<^verbatim>\<open>check_page_table\<close> ends in this state is lemma \<open>check_page_table_load\<close> below.
\<close>

definition after_fault :: "vmm \<Rightarrow> backing_io \<Rightarrow> int \<Rightarrow> nat \<Rightarrow> vmm" where
  "after_fault s io pn k =
     s\<lparr>page_faults := page_faults s + 1,
       temp_frame := loaded_frame s io,
       free_frames := (free_frames s)[k := - 1],
       number_of_free_frames := number_of_free_frames s - 1,
       page_table := (page_table s)[nat pn := int k],
       physical_memory := (physical_memory s)[k := loaded_frame s io],
       tlb := (tlb s)[nat (next_free_tlb_index s) :=
                \<lparr>page_number = pn, frame_number = int k, valid = 1\<rparr>],
       next_free_tlb_index := (next_free_tlb_index s + 1) mod 16\<rparr>"

subsection \<open>The invariant of the loop of \<^verbatim>\<open>main\<close>\<close>

text \<open>
  The arrays have their declared sizes; a page-table entry is \<open>-1\<close> or an occupied frame
  between 0 and 255; every occupied frame belongs to a page, and to one page only; a valid
  TLB entry repeats what the page table says about its page.
\<close>

definition vmm_inv :: "vmm \<Rightarrow> bool" where
  "vmm_inv s \<longleftrightarrow>
     length (physical_memory s) = 256 \<and> (\<forall>row\<in>set (physical_memory s). length row = 256) \<and>
     length (temp_frame s) = 256 \<and> length (page_table s) = 256 \<and>
     tlb_ok s \<and> frames_ok s \<and>
     (\<forall>p<256. page_table s ! p = - 1 \<or>
        (0 \<le> page_table s ! p \<and> page_table s ! p < 256 \<and>
         free_frames s ! nat (page_table s ! p) = - 1)) \<and>
     (\<forall>f<256. free_frames s ! f = - 1 \<longrightarrow> (\<exists>p<256. page_table s ! p = int f)) \<and>
     (\<forall>p<256. \<forall>q<256. page_table s ! p \<noteq> - 1 \<longrightarrow> page_table s ! p = page_table s ! q \<longrightarrow> p = q) \<and>
     (\<forall>e\<in>set (tlb s). valid e = 1 \<longrightarrow>
        0 \<le> page_number e \<and> page_number e < 256 \<and>
        page_table s ! nat (page_number e) = frame_number e \<and> frame_number e \<noteq> - 1)"

subsection \<open>Concrete inputs\<close>

text \<open>
  Four answers of the backing store: a full page of bytes 7, nothing at all, a short read
  of 100 bytes, and a full page after a failed \<^verbatim>\<open>fseek\<close>.
\<close>

definition io_full :: backing_io where
  "io_full = \<lparr>fseek_result = 0, fread_data = replicate 256 7\<rparr>"

definition io_empty :: backing_io where
  "io_empty = \<lparr>fseek_result = 0, fread_data = []\<rparr>"

definition io_short :: backing_io where
  "io_short = \<lparr>fseek_result = 0, fread_data = replicate 100 7\<rparr>"

definition io_seek_failed :: backing_io where
  "io_seek_failed = \<lparr>fseek_result = - 1, fread_data = replicate 256 7\<rparr>"

text \<open>
  The initial state with every frame marked occupied. No run reaches a state in which a
  page is unmapped and no frame is free (lemma \<open>free_frame_exists\<close>); the state shows what
  the functions do when they are called there.
\<close>

definition no_frame_left :: vmm where
  "no_frame_left = initial_state\<lparr>free_frames := replicate 256 (- 1), number_of_free_frames := 0\<rparr>"

text \<open>The addresses 0, 256, 512, ...: the first byte of the pages 0, 1, 2, ...\<close>

definition seq_requests :: "nat \<Rightarrow> request list" where
  "seq_requests n = map (\<lambda>i. (word_of_nat (256 * i), io_full)) [0..<n]"

text \<open>
  The state after \<open>seq_requests n\<close> for \<open>n \<le> 16\<close> (lemma \<open>run_seq_requests\<close>), and the
  state after \<open>seq_requests 17\<close>, where the entry of page 16 has replaced the one of page 0
  in slot 0 of the TLB (lemma \<open>run_seq_requests_17\<close>).
\<close>

definition loaded_state :: "nat \<Rightarrow> vmm" where
  "loaded_state n =
     \<lparr>physical_memory = replicate n (replicate 256 7) @ replicate (256 - n) (replicate 256 0),
      page_table = map int [0..<n] @ replicate (256 - n) (- 1),
      page_faults = int n,
      tlb_hits = 0,
      free_frames = replicate n (- 1) @ replicate (256 - n) 1,
      number_of_free_frames = 256 - int n,
      next_free_tlb_index = int n mod 16,
      tlb = map (\<lambda>i. \<lparr>page_number = int i, frame_number = int i, valid = 1\<rparr>) [0..<n] @
            replicate (16 - n) \<lparr>page_number = - 1, frame_number = - 1, valid = - 1\<rparr>,
      temp_frame = (if n = 0 then replicate 256 0 else replicate 256 7)\<rparr>"

definition state17 :: vmm where
  "state17 = after_fault (loaded_state 16) io_full 16 16"

section \<open>Properties of the model\<close>

subsection \<open>Addresses and the initial state\<close>

text \<open>
  The masks and the shift in arithmetic terms, and the state that the three \<^verbatim>\<open>init_\<close> loops
  leave behind.
\<close>

lemma uint_and_255: "uint ((a :: 32 word) AND 255) = uint a mod 256"
proof -
  have "(255 :: 32 word) = mask 8" by (simp add: mask_eq_exp_minus_1)
  then have "a AND 255 = take_bit 8 a" by (simp only: take_bit_eq_mask)
  then have "uint (a AND 255) = take_bit 8 (uint a)" by (simp only: unsigned_take_bit_eq)
  then show ?thesis by (simp add: take_bit_eq_mod)
qed

lemma uint_and_65535: "uint ((a :: 32 word) AND 65535) = uint a mod 65536"
proof -
  have "(65535 :: 32 word) = mask 16" by (simp add: mask_eq_exp_minus_1)
  then have "a AND 65535 = take_bit 16 a" by (simp only: take_bit_eq_mask)
  then have "uint (a AND 65535) = take_bit 16 (uint a)" by (simp only: unsigned_take_bit_eq)
  then show ?thesis by (simp add: take_bit_eq_mod)
qed

lemma uint_drop_bit_8: "uint (drop_bit 8 (a :: 32 word)) = uint a div 256"
proof -
  have "uint (drop_bit 8 a) = drop_bit 8 (take_bit 32 (uint a))"
    using unsigned_drop_bit_eq [of 8 a, where ?'a = int] by simp
  also have "take_bit 32 (uint a) = uint a"
    using take_bit_length_eq [of a] unsigned_take_bit_eq [of 32 a, where ?'a = int] by simp
  finally show ?thesis by (simp add: drop_bit_eq_div)
qed

lemma mod_div_256: "(x :: int) mod 65536 div 256 = x div 256 mod 256"
proof -
  have "drop_bit 8 (take_bit 16 x) = take_bit (16 - 8) (drop_bit 8 x)"
    by (rule drop_bit_take_bit)
  then show ?thesis by (simp add: take_bit_eq_mod drop_bit_eq_div)
qed

lemma mod_mod_256: "(x :: int) mod 65536 mod 256 = x mod 256"
  by (simp add: mod_mod_cancel)

lemma get_offset_mod: "get_offset a = uint a mod 256"
  by (simp add: get_offset_def OFFSET_MASK_def uint_and_255)

lemma get_page_number_shift: "get_page_number a = uint (drop_bit 8 a AND 255)"
  by (simp add: get_page_number_def PAGE_NUMBER_MASK_def)

lemma get_page_number_div: "get_page_number a = uint a div 256 mod 256"
  by (simp only: get_page_number_shift uint_and_255 uint_drop_bit_8)

lemma get_page_number_range: "0 \<le> get_page_number a \<and> get_page_number a < 256"
  by (simp add: get_page_number_div)

lemma get_offset_range: "0 \<le> get_offset a \<and> get_offset a < 256"
  by (simp add: get_offset_mod)

lemma get_page_number_low16: "get_page_number (a AND 65535) = get_page_number a"
proof -
  have "uint a mod 65536 div 256 mod 256 = uint a div 256 mod 256"
    by (simp only: mod_div_256 mod_mod_trivial)
  then show ?thesis by (simp only: get_page_number_div uint_and_65535)
qed

lemma get_offset_low16: "get_offset (a AND 65535) = get_offset a"
  by (simp only: get_offset_mod uint_and_65535 mod_mod_256)

lemma fold_list_update_map:
  "n \<le> length xs \<Longrightarrow>
   fold (\<lambda>i ys. ys[i := g (ys ! i)]) [0..<n] xs = map g (take n xs) @ drop n xs"
proof (induction n)
  case 0
  then show ?case by simp
next
  case (Suc n)
  then have "fold (\<lambda>i ys. ys[i := g (ys ! i)]) [0..<Suc n] xs
      = (map g (take n xs) @ drop n xs)[n := g ((map g (take n xs) @ drop n xs) ! n)]"
    by simp
  also have "\<dots> = map g (take n xs) @ (drop n xs)[0 := g (xs ! n)]"
    using Suc.prems by (simp add: list_update_append nth_append)
  also have "\<dots> = map g (take n xs) @ g (xs ! n) # drop (Suc n) xs"
    using Suc.prems by (simp add: Cons_nth_drop_Suc [symmetric])
  also have "\<dots> = map g (take (Suc n) xs) @ drop (Suc n) xs"
    using Suc.prems by (simp add: take_Suc_conv_app_nth)
  finally show ?case .
qed

lemma fold_list_update_const:
  "n \<le> length xs \<Longrightarrow> fold (\<lambda>i ys. ys[i := c]) [0..<n] xs = replicate n c @ drop n xs"
  using fold_list_update_map [of n xs "\<lambda>_. c"] by (simp add: map_replicate_const)

lemma initial_state_eq:
  "initial_state =
     \<lparr>physical_memory = replicate 256 (replicate 256 0),
      page_table = replicate 256 (- 1),
      page_faults = 0,
      tlb_hits = 0,
      free_frames = replicate 256 1,
      number_of_free_frames = 256,
      next_free_tlb_index = 0,
      tlb = replicate 16 \<lparr>page_number = - 1, frame_number = - 1, valid = - 1\<rparr>,
      temp_frame = replicate 256 0\<rparr>"
  by (simp add: initial_state_def init_tlb_def init_page_table_def init_physical_memory_def
      startup_def TLB_SIZE_def fold_list_update_const
      fold_list_update_map [where g = "\<lambda>e. e\<lparr>valid := - 1, page_number := - 1, frame_number := - 1\<rparr>"])

subsection \<open>TLB lookup and insertion\<close>

text \<open>
  The loop of \<^verbatim>\<open>check_tlb\<close> finds the first entry of the list that matches; with the cursor
  in range \<^verbatim>\<open>update_tlb\<close> always succeeds.
\<close>

lemma tlb_match_fun: "tlb_match pn = (\<lambda>e. page_number e = pn \<and> valid e = 1)"
  by (rule ext) (simp add: tlb_match_def)

lemma check_tlb_loop_find:
  "TLB_SIZE \<le> length (tlb s) \<Longrightarrow>
   check_tlb_loop s pn i =
     (case find (tlb_match pn) (drop i (take TLB_SIZE (tlb s))) of
        None \<Rightarrow> (- 1, s)
      | Some e \<Rightarrow> (frame_number e, s\<lparr>tlb_hits := tlb_hits s + 1\<rparr>))"
proof (induction s pn i rule: check_tlb_loop.induct)
  case (1 s pn i)
  show ?case
  proof (cases "i < TLB_SIZE")
    case False
    then show ?thesis by (simp add: check_tlb_loop.simps [of s pn i])
  next
    case True
    with "1.prems" have d: "drop i (take TLB_SIZE (tlb s)) = tlb s ! i # drop (i + 1) (take TLB_SIZE (tlb s))"
      using Cons_nth_drop_Suc [of i "take TLB_SIZE (tlb s)"] by simp
    show ?thesis
    proof (cases "tlb_match pn (tlb s ! i)")
      case True
      with \<open>i < TLB_SIZE\<close> d show ?thesis
        by (simp add: check_tlb_loop.simps [of s pn i] tlb_match_def)
    next
      case False
      with \<open>i < TLB_SIZE\<close> have "check_tlb_loop s pn i = check_tlb_loop s pn (i + 1)"
        by (auto simp add: check_tlb_loop.simps [of s pn i] tlb_match_def)
      also have "\<dots> = (case find (tlb_match pn) (drop (i + 1) (take TLB_SIZE (tlb s))) of
           None \<Rightarrow> (- 1, s)
         | Some e \<Rightarrow> (frame_number e, s\<lparr>tlb_hits := tlb_hits s + 1\<rparr>))"
        using "1.IH" \<open>i < TLB_SIZE\<close> False "1.prems" by (simp add: tlb_match_fun)
      finally show ?thesis using d False by simp
    qed
  qed
qed

lemma check_tlb_find:
  "length (tlb s) = TLB_SIZE \<Longrightarrow>
   check_tlb s pn =
     (case find (tlb_match pn) (tlb s) of
        None \<Rightarrow> (- 1, s)
      | Some e \<Rightarrow> (frame_number e, s\<lparr>tlb_hits := tlb_hits s + 1\<rparr>))"
  by (simp add: check_tlb_def check_tlb_loop_find)

lemma check_tlb_miss:
  "length (tlb s) = TLB_SIZE \<Longrightarrow> \<forall>e\<in>set (tlb s). \<not> tlb_match pn e \<Longrightarrow> check_tlb s pn = (- 1, s)"
  by (simp add: check_tlb_find find_None_iff [THEN iffD2])

lemma check_tlb_hit:
  assumes "length (tlb s) = TLB_SIZE" "i < TLB_SIZE" "tlb_match pn (tlb s ! i)"
    "\<forall>j<i. \<not> tlb_match pn (tlb s ! j)"
  shows "check_tlb s pn = (frame_number (tlb s ! i), s\<lparr>tlb_hits := tlb_hits s + 1\<rparr>)"
proof -
  from assms have "find (tlb_match pn) (tlb s) = Some (tlb s ! i)"
    by (auto simp: find_Some_iff)
  with assms(1) show ?thesis by (simp add: check_tlb_find)
qed

lemma update_tlb_ok:
  "tlb_ok s \<Longrightarrow>
   update_tlb s pn fn =
     Some (s\<lparr>tlb := (tlb s)[nat (next_free_tlb_index s) :=
                       \<lparr>page_number = pn, frame_number = fn, valid = 1\<rparr>],
             next_free_tlb_index := (next_free_tlb_index s + 1) mod 16\<rparr>)"
  by (simp add: update_tlb_def tlb_ok_def TLB_SIZE_def Let_def)

lemma update_tlb_tlb_ok:
  "tlb_ok s \<Longrightarrow> update_tlb s pn fn = Some s' \<Longrightarrow> tlb_ok s'"
proof -
  assume ok: "tlb_ok s" and u: "update_tlb s pn fn = Some s'"
  from u update_tlb_ok [OF ok, of pn fn]
  have s': "s' = s\<lparr>tlb := (tlb s)[nat (next_free_tlb_index s) :=
                       \<lparr>page_number = pn, frame_number = fn, valid = 1\<rparr>],
             next_free_tlb_index := (next_free_tlb_index s + 1) mod 16\<rparr>"
    by simp
  from ok show ?thesis
    unfolding s' by (simp add: tlb_ok_def TLB_SIZE_def)
qed

lemma valid_count_le: "length (tlb s) = TLB_SIZE \<Longrightarrow> valid_count s \<le> 16"
  using length_filter_le [of "\<lambda>e. valid e = 1" "tlb s"]
  by (simp add: valid_count_def TLB_SIZE_def)

subsection \<open>Sixteen insertions overwrite every slot\<close>

text \<open>
  After at most 16 insertions a slot holds one of the inserted entries, or it is one of the
  slots the cursor has not reached yet and holds what it held before.
\<close>

lemma nat_cursor_step: "0 \<le> c \<Longrightarrow> nat ((c + 1) mod 16) = (nat c + 1) mod 16"
  by (simp add: nat_mod_distrib nat_add_distrib)

lemma slot_exists: "c < 16 \<Longrightarrow> j < 16 \<Longrightarrow> \<exists>i<16. j = (c + i) mod (16::nat)"
proof (cases "c \<le> j")
  case True
  assume "j < 16"
  with True have "j - c < 16 \<and> j = (c + (j - c)) mod 16" by simp
  then show ?thesis by blast
next
  case False
  assume "c < 16" "j < 16"
  with False have "j + 16 - c < 16 \<and> j = (c + (j + 16 - c)) mod 16" by simp
  then show ?thesis by blast
qed

lemma insert_all_slots:
  "tlb_ok s \<Longrightarrow> length xs \<le> 16 \<Longrightarrow>
   \<exists>s'. insert_all s xs = Some s' \<and> tlb_ok s' \<and>
     (\<forall>j<16. (\<exists>x\<in>set xs. tlb s' ! j = \<lparr>page_number = fst x, frame_number = snd x, valid = 1\<rparr>) \<or>
             (tlb s' ! j = tlb s ! j \<and>
              (\<exists>i. length xs \<le> i \<and> i < 16 \<and> j = (nat (next_free_tlb_index s) + i) mod 16)))"
proof (induction xs arbitrary: s)
  case Nil
  then have "nat (next_free_tlb_index s) < 16"
    by (auto simp add: tlb_ok_def TLB_SIZE_def)
  then have "\<forall>j<16. \<exists>i<16. j = (nat (next_free_tlb_index s) + i) mod 16"
    using slot_exists by blast
  with Nil show ?case by simp
next
  case (Cons x xs)
  let ?c = "nat (next_free_tlb_index s)"
  let ?e = "\<lparr>page_number = fst x, frame_number = snd x, valid = 1\<rparr>"
  let ?s1 = "s\<lparr>tlb := (tlb s)[?c := ?e], next_free_tlb_index := (next_free_tlb_index s + 1) mod 16\<rparr>"
  from Cons.prems have c: "?c < 16" and len: "length (tlb s) = 16" and c0: "0 \<le> next_free_tlb_index s"
    by (auto simp add: tlb_ok_def TLB_SIZE_def)
  have u: "update_tlb s (fst x) (snd x) = Some ?s1"
    using Cons.prems(1) by (rule update_tlb_ok)
  then have ok1: "tlb_ok ?s1"
    using Cons.prems(1) by (rule update_tlb_tlb_ok [rotated])
  have c1: "nat (next_free_tlb_index ?s1) = (?c + 1) mod 16"
    using c0 by (simp add: nat_cursor_step)
  from Cons.prems have "length xs \<le> 16" by simp
  from Cons.IH [OF ok1 this] obtain s' where
    ins: "insert_all ?s1 xs = Some s'" and ok': "tlb_ok s'" and
    slots: "\<forall>j<16. (\<exists>y\<in>set xs. tlb s' ! j = \<lparr>page_number = fst y, frame_number = snd y, valid = 1\<rparr>) \<or>
             (tlb s' ! j = tlb ?s1 ! j \<and>
              (\<exists>i. length xs \<le> i \<and> i < 16 \<and> j = (nat (next_free_tlb_index ?s1) + i) mod 16))"
    by blast
  have "\<forall>j<16. (\<exists>y\<in>set (x # xs). tlb s' ! j = \<lparr>page_number = fst y, frame_number = snd y, valid = 1\<rparr>) \<or>
             (tlb s' ! j = tlb s ! j \<and>
              (\<exists>i. length (x # xs) \<le> i \<and> i < 16 \<and> j = (?c + i) mod 16))"
  proof (intro allI impI)
    fix j :: nat
    assume j: "j < 16"
    from slots j consider
      (new) "\<exists>y\<in>set xs. tlb s' ! j = \<lparr>page_number = fst y, frame_number = snd y, valid = 1\<rparr>"
      | (old) i where "tlb s' ! j = tlb ?s1 ! j" "length xs \<le> i" "i < 16"
          "j = (nat (next_free_tlb_index ?s1) + i) mod 16"
      by blast
    then show "(\<exists>y\<in>set (x # xs). tlb s' ! j = \<lparr>page_number = fst y, frame_number = snd y, valid = 1\<rparr>) \<or>
             (tlb s' ! j = tlb s ! j \<and>
              (\<exists>i. length (x # xs) \<le> i \<and> i < 16 \<and> j = (?c + i) mod 16))"
    proof cases
      case new
      then show ?thesis by auto
    next
      case old
      show ?thesis
      proof (cases "j = ?c")
        case True
        with old(1) len c have "tlb s' ! j = ?e" by simp
        then show ?thesis by simp
      next
        case False
        with old(1) have same: "tlb s' ! j = tlb s ! j" by simp
        from old(4) c1 have jj: "j = (?c + (i + 1)) mod 16"
          by (simp add: mod_add_left_eq)
        have "i + 1 < 16"
        proof (rule ccontr)
          assume "\<not> i + 1 < 16"
          with old(3) have "i + 1 = 16" by simp
          with jj c have "j = ?c" by simp
          with False show False by simp
        qed
        with same jj old(2) show ?thesis
          by (intro disjI2 conjI exI [of _ "i + 1"]) simp_all
      qed
    qed
  qed
  with u ins ok' show ?case by simp
qed

lemma insert_all_evicts:
  assumes "tlb_ok s" "length xs = 16" "pn \<notin> fst ` set xs"
  shows "\<exists>s'. insert_all s xs = Some s' \<and> tlb_ok s' \<and> check_tlb s' pn = (- 1, s')"
proof -
  from assms(2) have "length xs \<le> 16" by simp
  from insert_all_slots [OF assms(1) this] assms(2) obtain s' where
    ins: "insert_all s xs = Some s'" and ok': "tlb_ok s'" and
    slots: "\<forall>j<16. \<exists>x\<in>set xs. tlb s' ! j = \<lparr>page_number = fst x, frame_number = snd x, valid = 1\<rparr>"
    by fastforce
  from ok' have len: "length (tlb s') = TLB_SIZE" by (simp add: tlb_ok_def)
  have "\<forall>e\<in>set (tlb s'). \<not> tlb_match pn e"
  proof
    fix e assume "e \<in> set (tlb s')"
    then obtain j where "j < 16" "e = tlb s' ! j"
      using len by (auto simp: in_set_conv_nth TLB_SIZE_def)
    with slots obtain x where "x \<in> set xs" "e = \<lparr>page_number = fst x, frame_number = snd x, valid = 1\<rparr>"
      by auto
    with assms(3) show "\<not> tlb_match pn e"
      by (auto simp: tlb_match_def)
  qed
  with len have "check_tlb s' pn = (- 1, s')" by (rule check_tlb_miss)
  with ins ok' show ?thesis by blast
qed

subsection \<open>The frame allocator\<close>

text \<open>The scan stops at the least index that is not marked \<open>-1\<close>, if there is one.\<close>

lemma scan_free_frames_Some:
  "scan_free_frames ff i = Some k \<longleftrightarrow>
     i \<le> k \<and> k < length ff \<and> ff ! k \<noteq> - 1 \<and> (\<forall>j. i \<le> j \<and> j < k \<longrightarrow> ff ! j = - 1)"
proof (induction ff i rule: scan_free_frames.induct)
  case (1 ff i)
  show ?case
  proof (cases "i < length ff")
    case False
    then show ?thesis by (simp add: scan_free_frames.simps [of ff i])
  next
    case inside: True
    show ?thesis
    proof (cases "ff ! i = - 1")
      case False
      have "(\<forall>j. i \<le> j \<and> j < k \<longrightarrow> ff ! j = - 1) \<and> i \<le> k \<and> ff ! k \<noteq> - 1 \<longleftrightarrow> k = i"
        using False by (metis le_neq_implies_less le_refl leD)
      with inside False show ?thesis
        by (auto simp add: scan_free_frames.simps [of ff i])
    next
      case True
      have "scan_free_frames ff i = scan_free_frames ff (i + 1)"
        using inside True by (simp add: scan_free_frames.simps [of ff i])
      also have "\<dots> = Some k \<longleftrightarrow>
          i + 1 \<le> k \<and> k < length ff \<and> ff ! k \<noteq> - 1 \<and> (\<forall>j. i + 1 \<le> j \<and> j < k \<longrightarrow> ff ! j = - 1)"
        using "1.IH" inside True by simp
      also have "\<dots> \<longleftrightarrow>
          i \<le> k \<and> k < length ff \<and> ff ! k \<noteq> - 1 \<and> (\<forall>j. i \<le> j \<and> j < k \<longrightarrow> ff ! j = - 1)"
        using True
        by (metis Suc_eq_plus1 Suc_leI le_neq_implies_less Suc_leD not_less_eq_eq)
      finally show ?thesis .
    qed
  qed
qed

lemma scan_free_frames_None:
  "scan_free_frames ff i = None \<longleftrightarrow> (\<forall>j. i \<le> j \<and> j < length ff \<longrightarrow> ff ! j = - 1)"
proof (induction ff i rule: scan_free_frames.induct)
  case (1 ff i)
  show ?case
  proof (cases "i < length ff")
    case False
    then show ?thesis by (simp add: scan_free_frames.simps [of ff i])
  next
    case inside: True
    show ?thesis
    proof (cases "ff ! i = - 1")
      case False
      with inside show ?thesis
        by (auto simp add: scan_free_frames.simps [of ff i])
    next
      case True
      have "scan_free_frames ff i = scan_free_frames ff (i + 1)"
        using inside True by (simp add: scan_free_frames.simps [of ff i])
      also have "\<dots> = None \<longleftrightarrow> (\<forall>j. i + 1 \<le> j \<and> j < length ff \<longrightarrow> ff ! j = - 1)"
        using "1.IH" inside True by simp
      also have "\<dots> \<longleftrightarrow> (\<forall>j. i \<le> j \<and> j < length ff \<longrightarrow> ff ! j = - 1)"
        using True
        by (metis Suc_eq_plus1 Suc_leI le_neq_implies_less Suc_leD)
      finally show ?thesis .
    qed
  qed
qed

lemma finite_free_set: "finite (free_set s)"
  by (simp add: free_set_def)

lemma free_set_update:
  "k < length (free_frames s) \<Longrightarrow>
   free_set (s\<lparr>free_frames := (free_frames s)[k := - 1], number_of_free_frames := n\<rparr>) = free_set s - {k}"
  by (auto simp: free_set_def nth_list_update)

lemma get_next_free_frame_none:
  "frames_ok s \<Longrightarrow> free_set s = {} \<Longrightarrow> get_next_free_frame s = Some (- 1, s)"
  by (simp add: get_next_free_frame_def frames_ok_def)

lemma get_next_free_frame_some:
  assumes "frames_ok s" "free_set s \<noteq> {}"
  shows "\<exists>k. k \<in> free_set s \<and> (\<forall>j\<in>free_set s. k \<le> j) \<and>
           get_next_free_frame s =
             Some (int k, s\<lparr>free_frames := (free_frames s)[k := - 1],
                            number_of_free_frames := number_of_free_frames s - 1\<rparr>)"
proof -
  from assms have pos: "number_of_free_frames s > 0"
    using finite_free_set [of s] by (simp add: frames_ok_def card_gt_0_iff)
  from assms(2) have "scan_free_frames (free_frames s) 0 \<noteq> None"
    by (auto simp: scan_free_frames_None free_set_def)
  then obtain k where k: "scan_free_frames (free_frames s) 0 = Some k" by blast
  then have "k \<in> free_set s" and "\<forall>j\<in>free_set s. k \<le> j"
    by (auto simp: scan_free_frames_Some free_set_def intro: leI)
  with pos k show ?thesis
    by (intro exI [of _ k]) (simp add: get_next_free_frame_def)
qed

lemma get_next_free_frame_frames_ok:
  assumes "frames_ok s" "get_next_free_frame s = Some (fn, s')"
  shows "frames_ok s'"
proof (cases "free_set s = {}")
  case True
  with assms get_next_free_frame_none [of s] show ?thesis by simp
next
  case False
  from get_next_free_frame_some [OF assms(1) False] assms(2) obtain k where
    k: "k \<in> free_set s" and
    s': "s' = s\<lparr>free_frames := (free_frames s)[k := - 1],
                number_of_free_frames := number_of_free_frames s - 1\<rparr>"
    by auto
  from k have kl: "k < length (free_frames s)" by (simp add: free_set_def)
  have fs: "free_set s' = free_set s - {k}"
    unfolding s' using kl by (rule free_set_update)
  from k finite_free_set [of s] have "card (free_set s) > 0"
    by (auto simp: card_gt_0_iff)
  with k have "int (card (free_set s - {k})) = int (card (free_set s)) - 1"
    using finite_free_set [of s] by (simp add: card_Diff_singleton of_nat_diff)
  with assms(1) fs show ?thesis
    by (simp add: frames_ok_def s')
qed

subsection \<open>The three ways through \<^verbatim>\<open>check_page_table\<close>\<close>

text \<open>The page is bound; the read delivers nothing; the page is loaded into a free frame.\<close>

lemma check_page_table_hit:
  "0 \<le> pn \<Longrightarrow> pn < 256 \<Longrightarrow> page_table s ! nat pn \<noteq> - 1 \<Longrightarrow>
   check_page_table s io pn = Some (page_table s ! nat pn, s)"
  by (simp add: check_page_table_def Let_def)

lemma check_page_table_empty_read:
  "0 \<le> pn \<Longrightarrow> pn < 256 \<Longrightarrow> page_table s ! nat pn = - 1 \<Longrightarrow> fread_data io = [] \<Longrightarrow>
   check_page_table s io pn = Some (- 1, s\<lparr>page_faults := page_faults s + 1\<rparr>)"
  by (simp add: check_page_table_def Let_def)

lemma check_page_table_load:
  assumes "0 \<le> pn" "pn < 256" "page_table s ! nat pn = - 1" "fread_data io \<noteq> []"
    "frames_ok s" "free_set s \<noteq> {}" "tlb_ok s"
  shows "\<exists>k. k \<in> free_set s \<and> (\<forall>j\<in>free_set s. k \<le> j) \<and>
           check_page_table s io pn = Some (int k, after_fault s io pn k)"
proof -
  let ?s2 = "s\<lparr>page_faults := page_faults s + 1, temp_frame := loaded_frame s io\<rparr>"
  have ok2: "frames_ok ?s2" and ne2: "free_set ?s2 \<noteq> {}"
    using assms(5,6) by (simp_all add: frames_ok_def free_set_def)
  from get_next_free_frame_some [OF ok2 ne2] obtain k where
    k: "k \<in> free_set s" "\<forall>j\<in>free_set s. k \<le> j" and
    g: "get_next_free_frame ?s2 =
          Some (int k, ?s2\<lparr>free_frames := (free_frames s)[k := - 1],
                            number_of_free_frames := number_of_free_frames s - 1\<rparr>)"
    by (auto simp: free_set_def)
  let ?s5 = "s\<lparr>page_faults := page_faults s + 1, temp_frame := loaded_frame s io,
                free_frames := (free_frames s)[k := - 1],
                number_of_free_frames := number_of_free_frames s - 1,
                page_table := (page_table s)[nat pn := int k],
                physical_memory := (physical_memory s)[k := loaded_frame s io]\<rparr>"
  have "tlb_ok ?s5" using assms(7) by (simp add: tlb_ok_def)
  from update_tlb_ok [OF this, of pn "int k"]
  have u: "update_tlb ?s5 pn (int k) = Some (after_fault s io pn k)"
    by (simp add: after_fault_def)
  from assms(4) have "take 256 (fread_data io) \<noteq> []" by (cases "fread_data io") simp_all
  with assms(1-3) g u have "check_page_table s io pn = Some (int k, after_fault s io pn k)"
    by (simp add: check_page_table_def Let_def loaded_frame_def)
  with k show ?thesis by blast
qed

subsection \<open>The invariant is kept by a page fault\<close>

text \<open>
  While some page is unmapped, some frame is free: the occupied frames are the images of
  the mapped pages, and there are at most 255 of those.
\<close>

lemma free_frame_exists:
  assumes "vmm_inv s" "p < 256" "page_table s ! p = - 1"
  shows "free_set s \<noteq> {}"
proof
  assume empty: "free_set s = {}"
  from assms(1) have len: "length (free_frames s) = 256"
    and bound: "\<forall>f<256. free_frames s ! f = - 1 \<longrightarrow> (\<exists>q<256. page_table s ! q = int f)"
    by (simp_all add: vmm_inv_def frames_ok_def)
  let ?g = "\<lambda>q. nat (page_table s ! q)"
  have "{0..<256} \<subseteq> ?g ` ({0..<256} - {p})"
  proof
    fix f :: nat
    assume "f \<in> {0..<256}"
    then have f: "f < 256" by simp
    with empty len have "free_frames s ! f = - 1"
      by (auto simp: free_set_def)
    with bound f obtain q where q: "q < 256" "page_table s ! q = int f" by blast
    with assms(3) have "q \<noteq> p" by auto
    with q show "f \<in> ?g ` ({0..<256} - {p})"
      by (intro image_eqI [of _ _ q]) simp_all
  qed
  then have "card {0..<256::nat} \<le> card (?g ` ({0..<256} - {p}))"
    by (intro card_mono) simp_all
  also have "\<dots> \<le> card ({0..<256} - {p})"
    by (intro card_image_le) simp
  also have "\<dots> = 255" using assms(2) by simp
  finally show False by simp
qed

lemma vmm_inv_tlb_hits: "vmm_inv s \<Longrightarrow> vmm_inv (s\<lparr>tlb_hits := n\<rparr>)"
  by (simp add: vmm_inv_def tlb_ok_def frames_ok_def free_set_def)

lemma vmm_inv_page_faults: "vmm_inv s \<Longrightarrow> vmm_inv (s\<lparr>page_faults := n\<rparr>)"
  by (simp add: vmm_inv_def tlb_ok_def frames_ok_def free_set_def)

lemma vmm_inv_after_fault:
  assumes inv: "vmm_inv s" and pn: "0 \<le> pn" "pn < 256" and un: "page_table s ! nat pn = - 1"
    and k: "k \<in> free_set s"
  shows "vmm_inv (after_fault s io pn k)"
proof -
  let ?s' = "after_fault s io pn k"
  let ?p = "nat pn"
  from inv have lens: "length (physical_memory s) = 256" "length (page_table s) = 256"
      "length (free_frames s) = 256" "length (tlb s) = 16"
    and rows: "\<forall>row\<in>set (physical_memory s). length row = 256"
    and tf: "length (temp_frame s) = 256"
    and tok: "tlb_ok s" and fok: "frames_ok s"
    and pt: "\<forall>p<256. page_table s ! p = - 1 \<or>
        (0 \<le> page_table s ! p \<and> page_table s ! p < 256 \<and>
         free_frames s ! nat (page_table s ! p) = - 1)"
    and ff: "\<forall>f<256. free_frames s ! f = - 1 \<longrightarrow> (\<exists>p<256. page_table s ! p = int f)"
    and inj: "\<forall>p<256. \<forall>q<256. page_table s ! p \<noteq> - 1 \<longrightarrow> page_table s ! p = page_table s ! q \<longrightarrow> p = q"
    and tl: "\<forall>e\<in>set (tlb s). valid e = 1 \<longrightarrow>
        0 \<le> page_number e \<and> page_number e < 256 \<and>
        page_table s ! nat (page_number e) = frame_number e \<and> frame_number e \<noteq> - 1"
    by (simp_all add: vmm_inv_def frames_ok_def tlb_ok_def TLB_SIZE_def)
  from pn have p: "?p < 256" by simp
  from k lens have k256: "k < 256" and kfree: "free_frames s ! k \<noteq> - 1"
    by (simp_all add: free_set_def)
  have knew: "\<And>q. q < 256 \<Longrightarrow> page_table s ! q \<noteq> int k"
  proof
    fix q assume "q < 256" "page_table s ! q = int k"
    with pt have "page_table s ! q = - 1 \<or> free_frames s ! nat (page_table s ! q) = - 1"
      by blast
    with \<open>page_table s ! q = int k\<close> have "free_frames s ! k = - 1"
      by auto
    with kfree show False by simp
  qed
  have pt': "page_table ?s' = (page_table s)[?p := int k]"
    and ff': "free_frames ?s' = (free_frames s)[k := - 1]"
    and tlb': "tlb ?s' = (tlb s)[nat (next_free_tlb_index s) :=
                \<lparr>page_number = pn, frame_number = int k, valid = 1\<rparr>]"
    by (simp_all add: after_fault_def)
  have 1: "length (physical_memory ?s') = 256 \<and> length (page_table ?s') = 256"
    using lens by (simp add: after_fault_def)
  have lf: "length (loaded_frame s io) = 256"
    using tf by (simp add: loaded_frame_def)
  then have 8: "length (temp_frame ?s') = 256"
    by (simp add: after_fault_def)
  have 9: "\<forall>row\<in>set (physical_memory ?s'). length row = 256"
  proof
    fix row assume "row \<in> set (physical_memory ?s')"
    then have "row = loaded_frame s io \<or> row \<in> set (physical_memory s)"
      using set_update_subset_insert [of "physical_memory s" k "loaded_frame s io"]
      by (auto simp: after_fault_def)
    with lf rows show "length row = 256" by auto
  qed
  have 2: "tlb_ok ?s'"
    using tok by (simp add: after_fault_def tlb_ok_def TLB_SIZE_def)
  have "free_set ?s' = free_set s - {k}"
    using k256 lens by (auto simp: after_fault_def free_set_def nth_list_update)
  moreover have "int (card (free_set s - {k})) = int (card (free_set s)) - 1"
  proof -
    from k finite_free_set [of s] have "card (free_set s) > 0"
      by (auto simp: card_gt_0_iff)
    with k show ?thesis
      using finite_free_set [of s] by (simp add: card_Diff_singleton of_nat_diff)
  qed
  ultimately have 3: "frames_ok ?s'"
    using fok by (simp add: frames_ok_def after_fault_def)
  have 4: "\<forall>q<256. page_table ?s' ! q = - 1 \<or>
        (0 \<le> page_table ?s' ! q \<and> page_table ?s' ! q < 256 \<and>
         free_frames ?s' ! nat (page_table ?s' ! q) = - 1)"
  proof (intro allI impI)
    fix q :: nat assume q: "q < 256"
    show "page_table ?s' ! q = - 1 \<or>
        (0 \<le> page_table ?s' ! q \<and> page_table ?s' ! q < 256 \<and>
         free_frames ?s' ! nat (page_table ?s' ! q) = - 1)"
    proof (cases "q = ?p")
      case True
      with p k256 lens show ?thesis by (simp add: pt' ff')
    next
      case False
      from pt q have "page_table s ! q = - 1 \<or>
        (0 \<le> page_table s ! q \<and> page_table s ! q < 256 \<and>
         free_frames s ! nat (page_table s ! q) = - 1)"
        by blast
      then show ?thesis
      proof
        assume "page_table s ! q = - 1"
        with False show ?thesis by (simp add: pt')
      next
        assume old: "0 \<le> page_table s ! q \<and> page_table s ! q < 256 \<and>
         free_frames s ! nat (page_table s ! q) = - 1"
        with False k256 lens show ?thesis
          by (simp add: pt' ff' nth_list_update)
      qed
    qed
  qed
  have 5: "\<forall>f<256. free_frames ?s' ! f = - 1 \<longrightarrow> (\<exists>q<256. page_table ?s' ! q = int f)"
  proof (intro allI impI)
    fix f :: nat assume f: "f < 256" and m: "free_frames ?s' ! f = - 1"
    show "\<exists>q<256. page_table ?s' ! q = int f"
    proof (cases "f = k")
      case True
      with p lens show ?thesis by (intro exI [of _ ?p]) (simp add: pt')
    next
      case False
      with m have "free_frames s ! f = - 1" by (simp add: ff')
      with ff f obtain q where q: "q < 256" "page_table s ! q = int f" by blast
      with un have "q \<noteq> ?p" by auto
      with q show ?thesis by (intro exI [of _ q]) (simp add: pt')
    qed
  qed
  have 6: "\<forall>q<256. \<forall>r<256. page_table ?s' ! q \<noteq> - 1 \<longrightarrow>
             page_table ?s' ! q = page_table ?s' ! r \<longrightarrow> q = r"
  proof (intro allI impI)
    fix q r :: nat
    assume q: "q < 256" and r: "r < 256" and ne: "page_table ?s' ! q \<noteq> - 1"
      and eq: "page_table ?s' ! q = page_table ?s' ! r"
    show "q = r"
    proof (cases "q = ?p")
      case qp: True
      show ?thesis
      proof (cases "r = ?p")
        case True with qp show ?thesis by simp
      next
        case False
        with qp eq p lens have "page_table s ! r = int k" by (simp add: pt')
        with knew [OF r] show ?thesis by simp
      qed
    next
      case qp: False
      show ?thesis
      proof (cases "r = ?p")
        case True
        with qp eq p lens have "page_table s ! q = int k" by (simp add: pt')
        with knew [OF q] show ?thesis by simp
      next
        case False
        with qp eq ne have "page_table s ! q \<noteq> - 1" "page_table s ! q = page_table s ! r"
          by (simp_all add: pt')
        with inj q r show ?thesis by blast
      qed
    qed
  qed
  have 7: "\<forall>e\<in>set (tlb ?s'). valid e = 1 \<longrightarrow>
        0 \<le> page_number e \<and> page_number e < 256 \<and>
        page_table ?s' ! nat (page_number e) = frame_number e \<and> frame_number e \<noteq> - 1"
  proof (intro ballI impI)
    fix e assume e: "e \<in> set (tlb ?s')" and v: "valid e = 1"
    from e have "e = \<lparr>page_number = pn, frame_number = int k, valid = 1\<rparr> \<or> e \<in> set (tlb s)"
      unfolding tlb' using set_update_subset_insert [of "tlb s"] by blast
    then show "0 \<le> page_number e \<and> page_number e < 256 \<and>
        page_table ?s' ! nat (page_number e) = frame_number e \<and> frame_number e \<noteq> - 1"
    proof
      assume "e = \<lparr>page_number = pn, frame_number = int k, valid = 1\<rparr>"
      with pn p lens show ?thesis by (simp add: pt')
    next
      assume "e \<in> set (tlb s)"
      with tl v have old: "0 \<le> page_number e" "page_number e < 256"
        "page_table s ! nat (page_number e) = frame_number e" "frame_number e \<noteq> - 1"
        by auto
      with un have "nat (page_number e) \<noteq> ?p" by auto
      with old show ?thesis by (simp add: pt')
    qed
  qed
  from 1 2 3 4 5 6 7 8 9 show ?thesis
    unfolding vmm_inv_def by blast
qed

subsection \<open>The invariant holds throughout a run\<close>

text \<open>
  It holds in the initial state and every request keeps it; in particular no request of a
  run indexes a table out of range, whatever the backing store answers.
\<close>

lemma free_set_initial: "free_set initial_state = {..<256}"
  by (auto simp: free_set_def initial_state_eq)

lemma vmm_inv_initial: "vmm_inv initial_state"
proof -
  have "frames_ok initial_state"
    by (simp add: frames_ok_def free_set_initial) (simp add: initial_state_eq)
  moreover have "tlb_ok initial_state"
    by (simp add: tlb_ok_def TLB_SIZE_def initial_state_eq)
  ultimately show ?thesis
    by (simp add: vmm_inv_def) (simp add: initial_state_eq)
qed

lemma check_tlb_inv_cases:
  assumes "vmm_inv s"
  shows "(check_tlb s pn = (- 1, s) \<and> (\<forall>e\<in>set (tlb s). \<not> tlb_match pn e)) \<or>
         (check_tlb s pn = (page_table s ! nat pn, s\<lparr>tlb_hits := tlb_hits s + 1\<rparr>) \<and>
          0 \<le> pn \<and> pn < 256 \<and> page_table s ! nat pn \<noteq> - 1 \<and>
          (\<exists>e\<in>set (tlb s). tlb_match pn e))"
proof -
  from assms have len: "length (tlb s) = TLB_SIZE"
    and tl: "\<forall>e\<in>set (tlb s). valid e = 1 \<longrightarrow>
        0 \<le> page_number e \<and> page_number e < 256 \<and>
        page_table s ! nat (page_number e) = frame_number e \<and> frame_number e \<noteq> - 1"
    by (simp_all add: vmm_inv_def tlb_ok_def)
  show ?thesis
  proof (cases "find (tlb_match pn) (tlb s)")
    case None
    then have "\<forall>e\<in>set (tlb s). \<not> tlb_match pn e"
      by (simp add: find_None_iff)
    with len None show ?thesis by (simp add: check_tlb_find)
  next
    case (Some e)
    then have e: "e \<in> set (tlb s)" "tlb_match pn e"
      by (auto simp: find_Some_iff)
    with tl have "0 \<le> pn" "pn < 256" "page_table s ! nat pn = frame_number e" "frame_number e \<noteq> - 1"
      by (auto simp: tlb_match_def)
    with len Some e show ?thesis
      by (auto simp add: check_tlb_find)
  qed
qed

lemma page_of_range: "0 \<le> page_of rq \<and> page_of rq < 256"
  by (simp add: page_of_def get_page_number_range)

lemma resolve_tlb_hit:
  assumes "vmm_inv s" "\<exists>e\<in>set (tlb s). tlb_match (page_of rq) e"
  shows "resolve s rq = Some (page_table s ! nat (page_of rq), s\<lparr>tlb_hits := tlb_hits s + 1\<rparr>)"
    and "page_table s ! nat (page_of rq) \<noteq> - 1"
  using check_tlb_inv_cases [OF assms(1), of "page_of rq"] assms(2)
  by (auto simp: resolve_def page_of_def)

lemma resolve_tlb_miss:
  assumes "vmm_inv s" "\<forall>e\<in>set (tlb s). \<not> tlb_match (page_of rq) e"
  shows "resolve s rq = check_page_table s (snd rq) (page_of rq)"
  using check_tlb_inv_cases [OF assms(1), of "page_of rq"] assms(2)
  by (auto simp: resolve_def page_of_def)

lemma resolve_inv:
  assumes "vmm_inv s"
  shows "\<exists>fn s'. resolve s rq = Some (fn, s') \<and> vmm_inv s'"
proof (cases "\<exists>e\<in>set (tlb s). tlb_match (page_of rq) e")
  case True
  from resolve_tlb_hit(1) [OF assms True] vmm_inv_tlb_hits [OF assms]
  show ?thesis by blast
next
  case False
  then have r: "resolve s rq = check_page_table s (snd rq) (page_of rq)"
    using resolve_tlb_miss [OF assms] by blast
  note pr = page_of_range [of rq]
  show ?thesis
  proof (cases "page_table s ! nat (page_of rq) = - 1")
    case mapped: False
    with pr r assms show ?thesis by (simp add: check_page_table_hit)
  next
    case True
    show ?thesis
    proof (cases "fread_data (snd rq) = []")
      case True
      with \<open>page_table s ! nat (page_of rq) = - 1\<close> pr r vmm_inv_page_faults [OF assms]
      show ?thesis by (simp add: check_page_table_empty_read)
    next
      case False
      from pr have "nat (page_of rq) < 256" by auto
      from free_frame_exists [OF assms this True] have ne: "free_set s \<noteq> {}" .
      from assms have "frames_ok s" "tlb_ok s" by (simp_all add: vmm_inv_def)
      from check_page_table_load [OF _ _ True False this(1) ne this(2)] pr obtain k where
        k: "k \<in> free_set s"
        and c: "check_page_table s (snd rq) (page_of rq) = Some (int k, after_fault s (snd rq) (page_of rq) k)"
        by blast
      from pr have "0 \<le> page_of rq" "page_of rq < 256" by simp_all
      from vmm_inv_after_fault [OF assms this True k] c r show ?thesis by simp
    qed
  qed
qed

lemma main_iteration_inv:
  assumes "vmm_inv s"
  shows "\<exists>out s'. main_iteration s rq = Some (out, s') \<and> vmm_inv s'"
  using resolve_inv [OF assms, of rq] by (auto simp: main_iteration_def)

lemma run_inv:
  "vmm_inv s \<Longrightarrow> \<exists>outs s'. run s rqs = Some (outs, s') \<and> vmm_inv s'"
proof (induction rqs arbitrary: s)
  case Nil
  then show ?case by simp
next
  case (Cons rq rqs)
  from main_iteration_inv [OF Cons.prems, of rq] obtain out s1 where
    m: "main_iteration s rq = Some (out, s1)" and i1: "vmm_inv s1" by blast
  from Cons.IH [OF i1] obtain outs s' where "run s1 rqs = Some (outs, s')" "vmm_inv s'" by blast
  with m show ?case by simp
qed

lemma run_append:
  "run s (xs @ ys) =
     (case run s xs of
        None \<Rightarrow> None
      | Some (outs, s') \<Rightarrow>
          (case run s' ys of None \<Rightarrow> None | Some (outs', s'') \<Rightarrow> Some (outs @ outs', s'')))"
  by (induction xs arbitrary: s) (auto split: option.splits)

lemma run_reachable_inv:
  "\<exists>outs s. run initial_state rqs = Some (outs, s) \<and> vmm_inv s"
  using run_inv [OF vmm_inv_initial] .

subsection \<open>What one request does\<close>

lemma after_fault_simps:
  "page_faults (after_fault s io pn k) = page_faults s + 1"
  "tlb_hits (after_fault s io pn k) = tlb_hits s"
  "page_table (after_fault s io pn k) = (page_table s)[nat pn := int k]"
  "free_frames (after_fault s io pn k) = (free_frames s)[k := - 1]"
  "number_of_free_frames (after_fault s io pn k) = number_of_free_frames s - 1"
  "tlb (after_fault s io pn k) =
     (tlb s)[nat (next_free_tlb_index s) := \<lparr>page_number = pn, frame_number = int k, valid = 1\<rparr>]"
  "next_free_tlb_index (after_fault s io pn k) = (next_free_tlb_index s + 1) mod 16"
  "physical_memory (after_fault s io pn k) = (physical_memory s)[k := loaded_frame s io]"
  "temp_frame (after_fault s io pn k) = loaded_frame s io"
  by (simp_all add: after_fault_def)

text \<open>The four ways a request is resolved in a state that satisfies the invariant.\<close>

lemma resolve_cases:
  assumes inv: "vmm_inv s"
  obtains
    (tlb_hit) "\<exists>e\<in>set (tlb s). tlb_match (page_of rq) e"
      "page_table s ! nat (page_of rq) \<noteq> - 1"
      "resolve s rq = Some (page_table s ! nat (page_of rq), s\<lparr>tlb_hits := tlb_hits s + 1\<rparr>)"
  | (table_hit) "check_tlb s (page_of rq) = (- 1, s)"
      "page_table s ! nat (page_of rq) \<noteq> - 1"
      "resolve s rq = Some (page_table s ! nat (page_of rq), s)"
  | (no_data) "check_tlb s (page_of rq) = (- 1, s)"
      "page_table s ! nat (page_of rq) = - 1" "fread_data (snd rq) = []"
      "resolve s rq = Some (- 1, s\<lparr>page_faults := page_faults s + 1\<rparr>)"
  | (load) k where "check_tlb s (page_of rq) = (- 1, s)"
      "page_table s ! nat (page_of rq) = - 1" "fread_data (snd rq) \<noteq> []"
      "k \<in> free_set s" "\<forall>j\<in>free_set s. k \<le> j"
      "resolve s rq = Some (int k, after_fault s (snd rq) (page_of rq) k)"
proof (cases "\<exists>e\<in>set (tlb s). tlb_match (page_of rq) e")
  case True
  with resolve_tlb_hit [OF inv True] tlb_hit show ?thesis by blast
next
  case False
  then have r: "resolve s rq = check_page_table s (snd rq) (page_of rq)"
    using resolve_tlb_miss [OF inv] by blast
  from False check_tlb_inv_cases [OF inv, of "page_of rq"]
  have miss: "check_tlb s (page_of rq) = (- 1, s)" by blast
  note pr = page_of_range [of rq]
  show ?thesis
  proof (cases "page_table s ! nat (page_of rq) = - 1")
    case mapped: False
    with pr r have "resolve s rq = Some (page_table s ! nat (page_of rq), s)"
      by (simp add: check_page_table_hit)
    with miss mapped table_hit show ?thesis by blast
  next
    case True
    show ?thesis
    proof (cases "fread_data (snd rq) = []")
      case empty: True
      with True pr r have "resolve s rq = Some (- 1, s\<lparr>page_faults := page_faults s + 1\<rparr>)"
        by (simp add: check_page_table_empty_read)
      with miss True empty no_data show ?thesis by blast
    next
      case False
      from pr have "nat (page_of rq) < 256" by auto
      from free_frame_exists [OF inv this True] have ne: "free_set s \<noteq> {}" .
      from inv have "frames_ok s" "tlb_ok s" by (simp_all add: vmm_inv_def)
      from check_page_table_load [OF _ _ True False this(1) ne this(2)] pr obtain k where
        "k \<in> free_set s" "\<forall>j\<in>free_set s. k \<le> j"
        "check_page_table s (snd rq) (page_of rq) = Some (int k, after_fault s (snd rq) (page_of rq) k)"
        by blast
      with miss True False r load show ?thesis by simp
    qed
  qed
qed

lemma free_set_less: "vmm_inv s \<Longrightarrow> k \<in> free_set s \<Longrightarrow> k < 256"
  by (simp add: vmm_inv_def frames_ok_def free_set_def)

lemma resolve_effect:
  assumes inv: "vmm_inv s"
  shows "\<exists>fn s'. resolve s rq = Some (fn, s') \<and> vmm_inv s' \<and>
     fn = page_table s' ! nat (page_of rq) \<and>
     page_faults s' = page_faults s + (if page_table s ! nat (page_of rq) = - 1 then 1 else 0) \<and>
     (\<forall>q<256. q \<noteq> nat (page_of rq) \<longrightarrow> page_table s' ! q = page_table s ! q) \<and>
     (page_table s ! nat (page_of rq) \<noteq> - 1 \<longrightarrow>
        page_table s' = page_table s \<and> physical_memory s' = physical_memory s \<and>
        free_frames s' = free_frames s \<and> temp_frame s' = temp_frame s \<and> tlb s' = tlb s) \<and>
     (page_table s ! nat (page_of rq) = - 1 \<longrightarrow>
        (page_table s' ! nat (page_of rq) \<noteq> - 1 \<longleftrightarrow> fread_data (snd rq) \<noteq> []))"
proof -
  note pr = page_of_range [of rq]
  from inv have len: "length (page_table s) = 256" by (simp add: vmm_inv_def)
  from inv show ?thesis
  proof (cases rule: resolve_cases [where rq = rq])
    case tlb_hit
    with vmm_inv_tlb_hits [OF inv] show ?thesis by simp
  next
    case table_hit
    with inv show ?thesis by simp
  next
    case no_data
    with vmm_inv_page_faults [OF inv] show ?thesis by simp
  next
    case (load k)
    from pr have "0 \<le> page_of rq" "page_of rq < 256" by simp_all
    from vmm_inv_after_fault [OF inv this load(2,4)]
    have "vmm_inv (after_fault s (snd rq) (page_of rq) k)" .
    moreover from pr len have "nat (page_of rq) < length (page_table s)" by auto
    ultimately show ?thesis
      using load by (simp add: after_fault_simps)
  qed
qed

subsection \<open>Runs: mapped pages and referenced pages\<close>

text \<open>
  A bound page stays bound to its frame. The mapped pages are exactly the pages for
  which some request came with at least one byte from the backing store.
\<close>

lemma main_iteration_effect:
  assumes inv: "vmm_inv s"
  shows "\<exists>out s'. main_iteration s rq = Some (out, s') \<and> vmm_inv s' \<and>
     page_faults s' = page_faults s + (if page_table s ! nat (page_of rq) = - 1 then 1 else 0) \<and>
     (\<forall>q<256. q \<noteq> nat (page_of rq) \<longrightarrow> page_table s' ! q = page_table s ! q) \<and>
     (page_table s ! nat (page_of rq) \<noteq> - 1 \<longrightarrow>
        page_table s' = page_table s \<and> physical_memory s' = physical_memory s \<and>
        free_frames s' = free_frames s \<and> temp_frame s' = temp_frame s \<and> tlb s' = tlb s) \<and>
     (page_table s ! nat (page_of rq) = - 1 \<longrightarrow>
        (page_table s' ! nat (page_of rq) \<noteq> - 1 \<longleftrightarrow> fread_data (snd rq) \<noteq> []))"
proof -
  from resolve_effect [OF inv, of rq] obtain fn s' where
    r: "resolve s rq = Some (fn, s')" and
    rest: "vmm_inv s' \<and>
     page_faults s' = page_faults s + (if page_table s ! nat (page_of rq) = - 1 then 1 else 0) \<and>
     (\<forall>q<256. q \<noteq> nat (page_of rq) \<longrightarrow> page_table s' ! q = page_table s ! q) \<and>
     (page_table s ! nat (page_of rq) \<noteq> - 1 \<longrightarrow>
        page_table s' = page_table s \<and> physical_memory s' = physical_memory s \<and>
        free_frames s' = free_frames s \<and> temp_frame s' = temp_frame s \<and> tlb s' = tlb s) \<and>
     (page_table s ! nat (page_of rq) = - 1 \<longrightarrow>
        (page_table s' ! nat (page_of rq) \<noteq> - 1 \<longleftrightarrow> fread_data (snd rq) \<noteq> []))"
    by blast
  from r have "main_iteration s rq =
      Some (\<lparr>logical_address = sint (fst rq),
              physical_address = fn * 256 + get_offset (fst rq),
              value_read = read_physical_memory s' fn (get_offset (fst rq))\<rparr>, s')"
    by (simp add: main_iteration_def)
  with rest show ?thesis by blast
qed

lemma main_iteration_keeps_bound:
  assumes "vmm_inv s" "main_iteration s rq = Some (out, s')" "p < 256" "page_table s ! p \<noteq> - 1"
  shows "page_table s' ! p = page_table s ! p"
proof -
  from main_iteration_effect [OF assms(1), of rq] assms(2)
  have other: "\<forall>q<256. q \<noteq> nat (page_of rq) \<longrightarrow> page_table s' ! q = page_table s ! q"
    and same: "page_table s ! nat (page_of rq) \<noteq> - 1 \<longrightarrow> page_table s' = page_table s"
    by auto
  show ?thesis
  proof (cases "p = nat (page_of rq)")
    case True
    with assms(4) same show ?thesis by simp
  next
    case False
    with other assms(3) show ?thesis by simp
  qed
qed

lemma run_keeps_bound:
  "vmm_inv s \<Longrightarrow> run s rqs = Some (outs, s') \<Longrightarrow> p < 256 \<Longrightarrow> page_table s ! p \<noteq> - 1 \<Longrightarrow>
   page_table s' ! p = page_table s ! p"
proof (induction rqs arbitrary: s outs)
  case Nil
  then show ?case by simp
next
  case (Cons rq rqs)
  from main_iteration_inv [OF Cons.prems(1), of rq] obtain out s1 where
    m: "main_iteration s rq = Some (out, s1)" and i1: "vmm_inv s1" by blast
  from main_iteration_keeps_bound [OF Cons.prems(1) m Cons.prems(3,4)]
  have k1: "page_table s1 ! p = page_table s ! p" .
  from Cons.prems(2) m obtain outs1 where "run s1 rqs = Some (outs1, s')"
    by (auto split: option.splits)
  from Cons.IH [OF i1 this Cons.prems(3)] k1 Cons.prems(4) show ?case by simp
qed

lemma run_snoc:
  "run s (rqs @ [rq]) =
     (case run s rqs of
        None \<Rightarrow> None
      | Some (outs, s') \<Rightarrow>
          (case main_iteration s' rq of
             None \<Rightarrow> None
           | Some (out, s'') \<Rightarrow> Some (outs @ [out], s'')))"
  by (simp add: run_append split: option.splits)

lemma run_mapped_iff_data:
  "\<exists>outs s. run initial_state rqs = Some (outs, s) \<and> vmm_inv s \<and>
     (\<forall>p<256. page_table s ! p \<noteq> - 1 \<longleftrightarrow>
        (\<exists>r\<in>set rqs. page_of r = int p \<and> fread_data (snd r) \<noteq> []))"
proof (induction rqs rule: rev_induct)
  case Nil
  have "\<forall>p<256. page_table initial_state ! p = - 1"
    by (simp add: initial_state_eq)
  with vmm_inv_initial show ?case by simp
next
  case (snoc rq rqs)
  then obtain outs s where
    run: "run initial_state rqs = Some (outs, s)" and inv: "vmm_inv s" and
    iff: "\<forall>p<256. page_table s ! p \<noteq> - 1 \<longleftrightarrow>
        (\<exists>r\<in>set rqs. page_of r = int p \<and> fread_data (snd r) \<noteq> [])"
    by auto
  note pr = page_of_range [of rq]
  from main_iteration_effect [OF inv, of rq] obtain out s' where
    m: "main_iteration s rq = Some (out, s')" and inv': "vmm_inv s'" and
    other: "\<forall>q<256. q \<noteq> nat (page_of rq) \<longrightarrow> page_table s' ! q = page_table s ! q" and
    same: "page_table s ! nat (page_of rq) \<noteq> - 1 \<longrightarrow> page_table s' = page_table s" and
    new: "page_table s ! nat (page_of rq) = - 1 \<longrightarrow>
        (page_table s' ! nat (page_of rq) \<noteq> - 1 \<longleftrightarrow> fread_data (snd rq) \<noteq> [])"
    by blast
  have "\<forall>p<256. page_table s' ! p \<noteq> - 1 \<longleftrightarrow>
      (\<exists>r\<in>set (rqs @ [rq]). page_of r = int p \<and> fread_data (snd r) \<noteq> [])"
  proof (intro allI impI)
    fix p :: nat assume p: "p < 256"
    from iff p have old: "page_table s ! p \<noteq> - 1 \<longleftrightarrow>
        (\<exists>r\<in>set rqs. page_of r = int p \<and> fread_data (snd r) \<noteq> [])"
      by blast
    show "page_table s' ! p \<noteq> - 1 \<longleftrightarrow>
      (\<exists>r\<in>set (rqs @ [rq]). page_of r = int p \<and> fread_data (snd r) \<noteq> [])"
    proof (cases "p = nat (page_of rq)")
      case True
      with pr have eq: "page_of rq = int p" by simp
      show ?thesis
      proof (cases "page_table s ! p = - 1")
        case True
        with old have "\<not> (\<exists>r\<in>set rqs. page_of r = int p \<and> fread_data (snd r) \<noteq> [])"
          by simp
        moreover from True new \<open>p = nat (page_of rq)\<close>
        have "page_table s' ! p \<noteq> - 1 \<longleftrightarrow> fread_data (snd rq) \<noteq> []" by simp
        ultimately show ?thesis using eq by auto
      next
        case False
        with same \<open>p = nat (page_of rq)\<close> have "page_table s' ! p \<noteq> - 1" by simp
        moreover from False old
        have "\<exists>r\<in>set rqs. page_of r = int p \<and> fread_data (snd r) \<noteq> []" by simp
        ultimately show ?thesis by auto
      qed
    next
      case False
      with pr have "page_of rq \<noteq> int p" by auto
      with False other old p show ?thesis by auto
    qed
  qed
  with run m inv' show ?case by (simp add: run_snoc)
qed

lemma page_fault_exact:
  "\<exists>outs s out s'. run initial_state rqs = Some (outs, s) \<and>
     main_iteration s rq = Some (out, s') \<and>
     page_faults s' =
       page_faults s +
         (if \<exists>r\<in>set rqs. page_of r = page_of rq \<and> fread_data (snd r) \<noteq> [] then 0 else 1)"
proof -
  from run_mapped_iff_data [of rqs] obtain outs s where
    run: "run initial_state rqs = Some (outs, s)" and inv: "vmm_inv s" and
    iff: "\<forall>p<256. page_table s ! p \<noteq> - 1 \<longleftrightarrow>
        (\<exists>r\<in>set rqs. page_of r = int p \<and> fread_data (snd r) \<noteq> [])"
    by blast
  note pr = page_of_range [of rq]
  then have "nat (page_of rq) < 256" "int (nat (page_of rq)) = page_of rq" by auto
  with iff have "page_table s ! nat (page_of rq) \<noteq> - 1 \<longleftrightarrow>
      (\<exists>r\<in>set rqs. page_of r = page_of rq \<and> fread_data (snd r) \<noteq> [])"
    by metis
  with main_iteration_effect [OF inv, of rq] run show ?thesis by auto
qed

subsection \<open>The hit counter\<close>

lemma get_next_free_frame_tlb_hits:
  "get_next_free_frame s = Some (fn, s') \<Longrightarrow> tlb_hits s' = tlb_hits s"
  by (auto simp: get_next_free_frame_def split: if_splits option.splits)

lemma update_tlb_tlb_hits:
  "update_tlb s pn fn = Some s' \<Longrightarrow> tlb_hits s' = tlb_hits s"
  by (auto simp: update_tlb_def Let_def split: if_splits)

lemma check_page_table_tlb_hits:
  assumes "check_page_table s io pn = Some (fn, s')"
  shows "tlb_hits s' = tlb_hits s"
proof (cases "0 \<le> pn \<and> pn < 256")
  case False
  with assms show ?thesis by (simp add: check_page_table_def)
next
  case range: True
  show ?thesis
  proof (cases "page_table s ! nat pn = - 1")
    case False
    with range assms show ?thesis by (simp add: check_page_table_hit)
  next
    case True
    let ?s2 = "s\<lparr>page_faults := page_faults s + 1, temp_frame := loaded_frame s io\<rparr>"
    show ?thesis
    proof (cases "take 256 (fread_data io) = []")
      case True
      with range \<open>page_table s ! nat pn = - 1\<close> assms show ?thesis
        by (auto simp add: check_page_table_def Let_def)
    next
      case False
      with range True assms obtain fn' s3 s6 where
        g: "get_next_free_frame ?s2 = Some (fn', s3)" and
        u: "update_tlb (if fn' \<ge> 0
              then s3\<lparr>page_table := (page_table s3)[nat pn := fn'],
                      physical_memory := (physical_memory s3)[nat fn' := temp_frame s3]\<rparr>
              else s3\<lparr>page_table := (page_table s3)[nat pn := fn']\<rparr>) pn fn' = Some s6" and
        s': "s' = s6"
        by (auto simp add: check_page_table_def Let_def loaded_frame_def
            split: option.splits if_splits)
      from get_next_free_frame_tlb_hits [OF g] have "tlb_hits s3 = tlb_hits s" by simp
      with update_tlb_tlb_hits [OF u] s' show ?thesis by (simp split: if_splits)
    qed
  qed
qed

subsection \<open>Seventeen pages in a row\<close>

text \<open>
  The states of the run that references the pages 0, 1, ..., 16 in this order, in closed
  form: the first 16 page faults fill the TLB, the 17th overwrites slot 0.
\<close>

lemma loaded_state_0: "loaded_state 0 = initial_state"
  by (simp add: loaded_state_def initial_state_eq)

lemma page_of_seq_request:
  assumes "n < 256"
  shows "page_of (word_of_nat (256 * n), io) = int n"
proof -
  from assms have "256 * n < 2 ^ 32" by simp
  then have "take_bit 32 (256 * n) = 256 * n"
    by (simp only: take_bit_nat_eq_self)
  then have "uint (word_of_nat (256 * n) :: 32 word) = int (256 * n)"
    using unsigned_of_nat [of "256 * n", where ?'a = int and ?'b = 32] by simp
  with assms show ?thesis
    by (simp add: page_of_def get_page_number_div)
qed

lemma tlb_loaded_state_nth:
  "n \<le> 16 \<Longrightarrow> i < 16 \<Longrightarrow>
   tlb (loaded_state n) ! i =
     (if i < n then \<lparr>page_number = int i, frame_number = int i, valid = 1\<rparr>
      else \<lparr>page_number = - 1, frame_number = - 1, valid = - 1\<rparr>)"
  by (simp add: loaded_state_def nth_append)

lemma tlb_loaded_state_length: "n \<le> 16 \<Longrightarrow> length (tlb (loaded_state n)) = 16"
  by (simp add: loaded_state_def)

lemma tlb_ok_loaded_state: "n \<le> 16 \<Longrightarrow> tlb_ok (loaded_state n)"
  by (simp add: tlb_ok_def TLB_SIZE_def tlb_loaded_state_length) (simp add: loaded_state_def)

lemma free_set_loaded_state: "n \<le> 256 \<Longrightarrow> free_set (loaded_state n) = {n..<256}"
  by (auto simp: free_set_def loaded_state_def nth_append)

lemma frames_ok_loaded_state: "n \<le> 256 \<Longrightarrow> frames_ok (loaded_state n)"
  by (simp add: frames_ok_def free_set_loaded_state) (simp add: loaded_state_def of_nat_diff)

lemma check_tlb_loaded_state_miss:
  assumes "n \<le> 16"
  shows "check_tlb (loaded_state n) (int n) = (- 1, loaded_state n)"
proof -
  have "\<forall>i<16. \<not> tlb_match (int n) (tlb (loaded_state n) ! i)"
    using assms by (simp add: tlb_loaded_state_nth tlb_match_def)
  then have "\<forall>e\<in>set (tlb (loaded_state n)). \<not> tlb_match (int n) e"
    using assms by (simp add: all_set_conv_all_nth tlb_loaded_state_length)
  with assms show ?thesis
    by (intro check_tlb_miss) (simp_all add: tlb_loaded_state_length TLB_SIZE_def)
qed

lemma append_replicate_update:
  "0 < m \<Longrightarrow> (xs @ replicate m c)[length xs := v] = xs @ v # replicate (m - 1) c"
  by (cases m) (simp_all add: list_update_append)

lemma after_fault_loaded_state:
  assumes "n < 16"
  shows "after_fault (loaded_state n) io_full (int n) n = loaded_state (Suc n)"
proof -
  have lf: "loaded_frame (loaded_state n) io_full = replicate 256 7"
    by (simp add: loaded_frame_def io_full_def loaded_state_def)
  have "(replicate n (replicate 256 (7::byte)) @ replicate (256 - n) (replicate 256 0))[n := replicate 256 7]
      = replicate (Suc n) (replicate 256 7) @ replicate (256 - Suc n) (replicate 256 0)"
    using assms append_replicate_update [of "256 - n" "replicate n (replicate 256 (7::byte))"]
    by (simp add: replicate_append_same)
  moreover have "(map int [0..<n] @ replicate (256 - n) (- 1))[n := int n]
      = map int [0..<Suc n] @ replicate (256 - Suc n) (- 1)"
    using assms append_replicate_update [of "256 - n" "map int [0..<n]"] by simp
  moreover have "(replicate n (- 1) @ replicate (256 - n) (1::int))[n := - 1]
      = replicate (Suc n) (- 1) @ replicate (256 - Suc n) 1"
    using assms append_replicate_update [of "256 - n" "replicate n (- 1 :: int)"]
    by (simp add: replicate_append_same)
  moreover have "(map (\<lambda>i. \<lparr>page_number = int i, frame_number = int i, valid = 1\<rparr>) [0..<n] @
            replicate (16 - n) \<lparr>page_number = - 1, frame_number = - 1, valid = - 1\<rparr>)
          [n := \<lparr>page_number = int n, frame_number = int n, valid = 1\<rparr>]
      = map (\<lambda>i. \<lparr>page_number = int i, frame_number = int i, valid = 1\<rparr>) [0..<Suc n] @
            replicate (16 - Suc n) \<lparr>page_number = - 1, frame_number = - 1, valid = - 1\<rparr>"
    using assms append_replicate_update [of "16 - n"
        "map (\<lambda>i. \<lparr>page_number = int i, frame_number = int i, valid = 1\<rparr>) [0..<n]"]
    by simp
  moreover have "(int n mod 16 + 1) mod 16 = (1 + int n) mod 16"
    by (simp only: mod_add_left_eq add.commute [of 1 "int n"])
  moreover have "int n mod 16 = int n" using assms by simp
  moreover have "after_fault (loaded_state n) io_full (int n) n =
      (loaded_state n)
        \<lparr>page_faults := page_faults (loaded_state n) + 1,
         temp_frame := replicate 256 7,
         free_frames := (free_frames (loaded_state n))[n := - 1],
         number_of_free_frames := number_of_free_frames (loaded_state n) - 1,
         page_table := (page_table (loaded_state n))[n := int n],
         physical_memory := (physical_memory (loaded_state n))[n := replicate 256 7],
         tlb := (tlb (loaded_state n))[nat (next_free_tlb_index (loaded_state n)) :=
                  \<lparr>page_number = int n, frame_number = int n, valid = 1\<rparr>],
         next_free_tlb_index := (next_free_tlb_index (loaded_state n) + 1) mod 16\<rparr>"
    by (simp add: after_fault_def lf)
  ultimately show ?thesis
    by (simp add: loaded_state_def)
qed

lemma main_iteration_loaded_state:
  assumes "n \<le> 16"
  shows "\<exists>out. main_iteration (loaded_state n) (word_of_nat (256 * n), io_full)
           = Some (out, after_fault (loaded_state n) io_full (int n) n)"
proof -
  let ?s = "loaded_state n"
  let ?rq = "(word_of_nat (256 * n) :: 32 word, io_full)"
  from assms have pg: "get_page_number (fst ?rq) = int n"
    using page_of_seq_request [of n io_full] by (simp add: page_of_def)
  from assms have miss: "check_tlb ?s (int n) = (- 1, ?s)"
    by (simp add: check_tlb_loaded_state_miss)
  have un: "page_table ?s ! nat (int n) = - 1"
    using assms by (simp add: loaded_state_def nth_append)
  have data: "fread_data io_full \<noteq> []" by (simp add: io_full_def)
  from assms have fs: "free_set ?s = {n..<256}" by (simp add: free_set_loaded_state)
  then have ne: "free_set ?s \<noteq> {}" using assms by simp
  from assms have "frames_ok ?s" "tlb_ok ?s"
    by (simp_all add: frames_ok_loaded_state tlb_ok_loaded_state)
  from check_page_table_load [OF _ _ un data this(1) ne this(2)] assms obtain k where
    k: "k \<in> free_set ?s" "\<forall>j\<in>free_set ?s. k \<le> j" and
    c: "check_page_table ?s io_full (int n) = Some (int k, after_fault ?s io_full (int n) k)"
    by auto
  from k fs assms have "k = n" by (simp add: antisym)
  with c pg miss show ?thesis
    by (simp add: main_iteration_def resolve_def Let_def)
qed

lemma seq_requests_Suc:
  "seq_requests (Suc n) = seq_requests n @ [(word_of_nat (256 * n), io_full)]"
  by (simp add: seq_requests_def)

lemma run_seq_requests:
  "n \<le> 16 \<Longrightarrow> \<exists>outs. run initial_state (seq_requests n) = Some (outs, loaded_state n)"
proof (induction n)
  case 0
  then show ?case by (simp add: seq_requests_def loaded_state_0)
next
  case (Suc n)
  then obtain outs where "run initial_state (seq_requests n) = Some (outs, loaded_state n)"
    by auto
  moreover from Suc.prems main_iteration_loaded_state [of n] obtain out where
    "main_iteration (loaded_state n) (word_of_nat (256 * n), io_full) = Some (out, loaded_state (Suc n))"
    by (auto simp: after_fault_loaded_state)
  ultimately show ?case
    by (simp add: seq_requests_Suc run_snoc)
qed

lemma seq_requests_1: "seq_requests 1 = [(0, io_full)]"
  by (simp add: seq_requests_def)

lemma run_first_request: "\<exists>outs. run initial_state [(0, io_full)] = Some (outs, loaded_state 1)"
proof -
  have "(1::nat) \<le> 16" by simp
  from run_seq_requests [OF this] show ?thesis by (simp only: seq_requests_1)
qed

lemma run_seq_requests_17:
  "\<exists>outs. run initial_state (seq_requests 17) = Some (outs, state17)"
proof -
  from run_seq_requests [of 16] obtain outs where
    "run initial_state (seq_requests 16) = Some (outs, loaded_state 16)" by auto
  moreover from main_iteration_loaded_state [of 16] obtain out where
    "main_iteration (loaded_state 16) (word_of_nat (256 * 16), io_full) = Some (out, state17)"
    by (auto simp: state17_def)
  moreover have "seq_requests 17 = seq_requests 16 @ [(word_of_nat (256 * 16), io_full)]"
    using seq_requests_Suc [of 16] by simp
  ultimately show ?thesis by (simp add: run_snoc)
qed

lemma reachable_inv: "run initial_state rqs = Some (outs, s) \<Longrightarrow> vmm_inv s"
  using run_reachable_inv [of rqs] by auto

lemma vmm_inv_state17: "vmm_inv state17"
  using run_seq_requests_17 reachable_inv by blast

lemma tlb_state17_nth:
  "i < 16 \<Longrightarrow>
   tlb state17 ! i =
     (if i = 0 then \<lparr>page_number = 16, frame_number = 16, valid = 1\<rparr>
      else \<lparr>page_number = int i, frame_number = int i, valid = 1\<rparr>)"
  by (simp add: state17_def after_fault_simps) (simp add: loaded_state_def nth_list_update)

lemma check_tlb_state17: "check_tlb state17 0 = (- 1, state17)"
proof -
  from vmm_inv_state17 have len: "length (tlb state17) = TLB_SIZE"
    by (simp add: vmm_inv_def tlb_ok_def)
  have "\<forall>i<16. \<not> tlb_match 0 (tlb state17 ! i)"
    by (simp add: tlb_state17_nth tlb_match_def)
  with len have "\<forall>e\<in>set (tlb state17). \<not> tlb_match 0 e"
    by (simp add: all_set_conv_all_nth TLB_SIZE_def)
  with len show ?thesis by (rule check_tlb_miss)
qed

lemma page_table_state17: "page_table state17 ! 0 = 0"
  by (simp add: state17_def after_fault_simps) (simp add: loaded_state_def nth_append)

lemma get_page_number_0: "get_page_number 0 = 0"
  by (simp add: get_page_number_div)

lemma resolve_state17: "resolve state17 (0, io) = Some (0, state17)"
  using page_table_state17
  by (simp add: resolve_def Let_def get_page_number_0 check_tlb_state17 check_page_table_hit)

subsection \<open>Reads that deliver nothing, and the first load\<close>

lemma initial_state_page_faults_0: "initial_state\<lparr>page_faults := 0\<rparr> = initial_state"
  by (simp add: initial_state_eq)

lemma check_tlb_initial_miss:
  "check_tlb (initial_state\<lparr>page_faults := m\<rparr>) pn = (- 1, initial_state\<lparr>page_faults := m\<rparr>)"
proof -
  have "\<forall>e\<in>set (tlb (initial_state\<lparr>page_faults := m\<rparr>)). \<not> tlb_match pn e"
    by (simp add: initial_state_eq tlb_match_def)
  moreover have "length (tlb (initial_state\<lparr>page_faults := m\<rparr>)) = TLB_SIZE"
    by (simp add: initial_state_eq TLB_SIZE_def)
  ultimately show ?thesis by (intro check_tlb_miss)
qed

lemma page_table_initial:
  "0 \<le> pn \<Longrightarrow> pn < 256 \<Longrightarrow> page_table initial_state ! nat pn = - 1"
proof -
  assume "0 \<le> pn" "pn < 256"
  then have "nat pn < 256" by auto
  then show ?thesis by (simp add: initial_state_eq)
qed

lemma resolve_initial_empty:
  assumes "fread_data (snd rq) = []"
  shows "resolve (initial_state\<lparr>page_faults := m\<rparr>) rq = Some (- 1, initial_state\<lparr>page_faults := m + 1\<rparr>)"
proof -
  note pr = get_page_number_range [of "fst rq"]
  then have "page_table (initial_state\<lparr>page_faults := m\<rparr>) ! nat (get_page_number (fst rq)) = - 1"
    by (simp add: page_table_initial)
  with pr assms have "check_page_table (initial_state\<lparr>page_faults := m\<rparr>) (snd rq) (get_page_number (fst rq))
      = Some (- 1, initial_state\<lparr>page_faults := m + 1\<rparr>)"
    by (simp add: check_page_table_empty_read)
  then show ?thesis
    by (simp add: resolve_def Let_def check_tlb_initial_miss)
qed

lemma main_iteration_initial_empty:
  assumes "fread_data (snd rq) = []"
  shows "main_iteration (initial_state\<lparr>page_faults := m\<rparr>) rq =
     Some (\<lparr>logical_address = sint (fst rq),
             physical_address = - 256 + get_offset (fst rq),
             value_read = None\<rparr>,
           initial_state\<lparr>page_faults := m + 1\<rparr>)"
  by (simp add: main_iteration_def resolve_initial_empty [OF assms] read_physical_memory_def)

lemma check_page_table_initial_load:
  assumes "0 \<le> pn" "pn < 256" "fread_data io \<noteq> []"
  shows "check_page_table initial_state io pn = Some (0, after_fault initial_state io pn 0)"
proof -
  have un: "page_table initial_state ! nat pn = - 1"
    using assms by (simp add: page_table_initial)
  have z: "0 \<in> free_set initial_state" by (simp add: free_set_initial)
  then have ne: "free_set initial_state \<noteq> {}" by blast
  from vmm_inv_initial have "frames_ok initial_state" "tlb_ok initial_state"
    by (simp_all add: vmm_inv_def)
  from check_page_table_load [OF assms(1,2) un assms(3) this(1) ne this(2)] obtain k where
    "k \<in> free_set initial_state" "\<forall>j\<in>free_set initial_state. k \<le> j"
    and c: "check_page_table initial_state io pn = Some (int k, after_fault initial_state io pn k)"
    by blast
  with z have "k \<le> 0" by blast
  with c show ?thesis by simp
qed

lemma get_offset_0: "get_offset 0 = 0"
  by (simp add: get_offset_mod)

subsection \<open>The free list never grows\<close>

lemma check_tlb_cold:
  assumes "tlb s = replicate 16 \<lparr>page_number = - 1, frame_number = - 1, valid = - 1\<rparr>"
  shows "check_tlb s pn = (- 1, s)"
proof -
  from assms have "\<forall>e\<in>set (tlb s). \<not> tlb_match pn e"
    by (simp add: tlb_match_def)
  moreover from assms have "length (tlb s) = TLB_SIZE"
    by (simp add: TLB_SIZE_def)
  ultimately show ?thesis by (intro check_tlb_miss)
qed

lemma check_tlb_free_frames: "free_frames (snd (check_tlb s pn)) = free_frames s"
proof -
  have "free_frames (snd (check_tlb_loop s pn i)) = free_frames s" for i
    by (induction s pn i rule: check_tlb_loop.induct)
       (simp add: check_tlb_loop.simps [of _ _ _])
  then show ?thesis by (simp add: check_tlb_def)
qed

lemma get_next_free_frame_free_set:
  "get_next_free_frame s = Some (fn, s') \<Longrightarrow> free_set s' \<subseteq> free_set s"
  by (auto simp: get_next_free_frame_def free_set_def scan_free_frames_Some nth_list_update
           split: if_splits option.splits)

lemma update_tlb_free_frames:
  "update_tlb s pn fn = Some s' \<Longrightarrow> free_frames s' = free_frames s"
  by (auto simp: update_tlb_def Let_def split: if_splits)

lemma check_page_table_free_set:
  assumes "check_page_table s io pn = Some (fn, s')"
  shows "free_set s' \<subseteq> free_set s"
proof (cases "0 \<le> pn \<and> pn < 256")
  case False
  with assms show ?thesis by (simp add: check_page_table_def)
next
  case range: True
  show ?thesis
  proof (cases "page_table s ! nat pn = - 1")
    case False
    with range assms show ?thesis by (simp add: check_page_table_hit)
  next
    case True
    let ?s2 = "s\<lparr>page_faults := page_faults s + 1, temp_frame := loaded_frame s io\<rparr>"
    show ?thesis
    proof (cases "take 256 (fread_data io) = []")
      case True
      with range \<open>page_table s ! nat pn = - 1\<close> assms show ?thesis
        by (auto simp add: check_page_table_def Let_def free_set_def)
    next
      case False
      with range True assms obtain fn' s3 s6 where
        g: "get_next_free_frame ?s2 = Some (fn', s3)" and
        u: "update_tlb (if fn' \<ge> 0
              then s3\<lparr>page_table := (page_table s3)[nat pn := fn'],
                      physical_memory := (physical_memory s3)[nat fn' := temp_frame s3]\<rparr>
              else s3\<lparr>page_table := (page_table s3)[nat pn := fn']\<rparr>) pn fn' = Some s6" and
        s': "s' = s6"
        by (auto simp add: check_page_table_def Let_def loaded_frame_def
            split: option.splits if_splits)
      from get_next_free_frame_free_set [OF g] have "free_set s3 \<subseteq> free_set s"
        by (simp add: free_set_def)
      moreover from update_tlb_free_frames [OF u] s' have "free_frames s' = free_frames s3"
        by (simp split: if_splits)
      ultimately show ?thesis by (simp add: free_set_def)
    qed
  qed
qed

lemma resolve_free_set:
  assumes "resolve s rq = Some (fn, s')"
  shows "free_set s' \<subseteq> free_set s"
proof -
  obtain fn1 s1 where c: "check_tlb s (get_page_number (fst rq)) = (fn1, s1)"
    by (cases "check_tlb s (get_page_number (fst rq))")
  with check_tlb_free_frames [of s "get_page_number (fst rq)"]
  have f1: "free_set s1 = free_set s" by (simp add: free_set_def)
  show ?thesis
  proof (cases "fn1 = - 1")
    case True
    with assms c have "check_page_table s1 (snd rq) (get_page_number (fst rq)) = Some (fn, s')"
      by (simp add: resolve_def Let_def)
    from check_page_table_free_set [OF this] f1 show ?thesis by simp
  next
    case False
    with assms c f1 show ?thesis by (simp add: resolve_def Let_def)
  qed
qed

lemma run_free_set:
  "run s rqs = Some (outs, s') \<Longrightarrow> free_set s' \<subseteq> free_set s"
proof (induction rqs arbitrary: s outs)
  case Nil
  then show ?case by simp
next
  case (Cons rq rqs)
  then obtain out s1 outs1 where
    m: "main_iteration s rq = Some (out, s1)" and r: "run s1 rqs = Some (outs1, s')"
    by (auto split: option.splits)
  from m obtain fn where "resolve s rq = Some (fn, s1)"
    by (auto simp: main_iteration_def split: option.splits)
  from resolve_free_set [OF this] Cons.IH [OF r] show ?case by blast
qed

lemma run_empty_reads_unmapped:
  "vmm_inv s \<Longrightarrow> page_table s ! nat (get_page_number a) = - 1 \<Longrightarrow> fread_data io = [] \<Longrightarrow>
   \<exists>outs. run s (replicate n (a, io)) = Some (outs, s\<lparr>page_faults := page_faults s + int n\<rparr>)"
proof (induction n arbitrary: s)
  case 0
  then show ?case by simp
next
  case (Suc n)
  let ?s1 = "s\<lparr>page_faults := page_faults s + 1\<rparr>"
  from Suc.prems(2) have un: "page_table s ! nat (page_of (a, io)) = - 1"
    by (simp add: page_of_def)
  from Suc.prems(1) have "resolve s (a, io) = Some (- 1, ?s1)"
  proof (cases rule: resolve_cases [where rq = "(a, io)"])
    case no_data
    then show ?thesis by simp
  qed (use un Suc.prems(3) in simp_all)
  then obtain out where m: "main_iteration s (a, io) = Some (out, ?s1)"
    by (simp add: main_iteration_def)
  from Suc.prems have "vmm_inv ?s1" "page_table ?s1 ! nat (get_page_number a) = - 1"
    by (simp_all add: vmm_inv_page_faults)
  from Suc.IH [OF this Suc.prems(3)] obtain outs where
    "run ?s1 (replicate n (a, io)) = Some (outs, ?s1\<lparr>page_faults := page_faults ?s1 + int n\<rparr>)"
    by blast
  with m show ?case by (simp add: add.assoc)
qed



subsection \<open>Occupied frames keep their contents\<close>

lemma page_table_entry_range:
  assumes "vmm_inv s" "p < 256" "page_table s ! p \<noteq> - 1"
  shows "0 \<le> page_table s ! p \<and> page_table s ! p < 256"
  using assms by (auto simp: vmm_inv_def)

lemma resolve_frame:
  assumes inv: "vmm_inv s"
  shows "\<exists>F s'. resolve s rq = Some (F, s') \<and>
           (if page_table s ! nat (page_of rq) = - 1 \<and> fread_data (snd rq) = []
            then F = - 1 else 0 \<le> F \<and> F < 256)"
proof -
  from page_of_range [of rq] have p: "nat (page_of rq) < 256" by auto
  from inv show ?thesis
  proof (cases rule: resolve_cases [where rq = rq])
    case tlb_hit
    with page_table_entry_range [OF inv p] show ?thesis by simp
  next
    case table_hit
    with page_table_entry_range [OF inv p] show ?thesis by simp
  next
    case no_data
    then show ?thesis by simp
  next
    case (load k)
    from free_set_less [OF inv load(4)] have "k < 256" .
    with load show ?thesis by simp
  qed
qed

lemma resolve_keeps_frame:
  assumes inv: "vmm_inv s" and r: "resolve s rq = Some (F, s')"
    and f: "f < 256" "free_frames s ! f = - 1"
  shows "physical_memory s' ! f = physical_memory s ! f \<and> free_frames s' ! f = - 1"
  using inv
proof (cases rule: resolve_cases [where rq = rq])
  case tlb_hit
  with r show ?thesis using f by auto
next
  case table_hit
  with r show ?thesis using f by auto
next
  case no_data
  with r show ?thesis using f by auto
next
  case (load k)
  from load(4) f have "k \<noteq> f" by (auto simp: free_set_def)
  with load r f show ?thesis by (auto simp: after_fault_simps)
qed

lemma run_keeps_frame:
  "vmm_inv s \<Longrightarrow> run s rqs = Some (outs, s') \<Longrightarrow> f < 256 \<Longrightarrow> free_frames s ! f = - 1 \<Longrightarrow>
   physical_memory s' ! f = physical_memory s ! f"
proof (induction rqs arbitrary: s outs)
  case Nil
  then show ?case by simp
next
  case (Cons rq rqs)
  from main_iteration_inv [OF Cons.prems(1), of rq] obtain out s1 where
    m: "main_iteration s rq = Some (out, s1)" and i1: "vmm_inv s1" by blast
  then obtain F where "resolve s rq = Some (F, s1)"
    by (auto simp: main_iteration_def split: option.splits)
  from resolve_keeps_frame [OF Cons.prems(1) this Cons.prems(3,4)]
  have k1: "physical_memory s1 ! f = physical_memory s ! f" "free_frames s1 ! f = - 1"
    by simp_all
  from Cons.prems(2) m obtain outs1 where "run s1 rqs = Some (outs1, s')"
    by (auto split: option.splits)
  from Cons.IH [OF i1 this Cons.prems(3) k1(2)] k1(1) show ?case by simp
qed

lemma loaded_frame_full:
  "length (fread_data io) = 256 \<Longrightarrow> length (temp_frame s) = 256 \<Longrightarrow>
   loaded_frame s io = fread_data io"
  by (simp add: loaded_frame_def)

section \<open>The claims\<close>

text \<open>
  C1, as the program has it. \<^verbatim>\<open>update_tlb\<close> is called in one place only, inside the
  page-fault branch of \<^verbatim>\<open>check_page_table\<close>; neither the other branch nor \<^verbatim>\<open>main\<close> calls
  it. After the 17 requests for the addresses 0, 256, ..., 4096 the entry of page 0 has been
  overwritten in the TLB and page 0 is bound to frame 0 in the page table. A request for
  address 0 then misses the TLB, gets frame 0 from the page table, and leaves the whole
  state, the TLB included, as it was: the TLB still has no entry for page 0.
\<close>

theorem no_tlb_entry_on_page_table_hit:
  "map_option snd (run initial_state (seq_requests 17)) = Some state17 \<and>
   check_tlb state17 0 = (- 1, state17) \<and>
   page_table state17 ! 0 = 0 \<and>
   resolve state17 (0, io_full) = Some (0, state17) \<and>
   map_option snd (main_iteration state17 (0, io_full)) = Some state17"
proof -
  from run_seq_requests_17 have "map_option snd (run initial_state (seq_requests 17)) = Some state17"
    by auto
  moreover have "map_option snd (main_iteration state17 (0, io_full)) = Some state17"
    by (simp add: main_iteration_def resolve_state17)
  ultimately show ?thesis
    by (simp add: check_tlb_state17 page_table_state17 resolve_state17)
qed

text \<open>
  C1, amended. In every state of a run, a request that misses the TLB gets a TLB entry for
  its page exactly when the page table resolves it by a page fault that loads the page:
  the entry (page, frame) is written into the slot under the cursor and the cursor moves
  on. When the page is already bound, the page table returns its frame and nothing is
  inserted: the state does not change at all. When the page is unbound and the read
  delivers nothing, the fault is counted and nothing is inserted either: the result is
  \<open>-1\<close> and only \<^verbatim>\<open>page_faults\<close> changes.
\<close>

theorem tlb_insert_only_on_page_fault:
  assumes "run initial_state rqs = Some (outs, s)"
    and "fst (check_tlb s (get_page_number (fst rq))) = - 1"
  shows "(page_table s ! nat (get_page_number (fst rq)) \<noteq> - 1 \<longrightarrow>
            resolve s rq = Some (page_table s ! nat (get_page_number (fst rq)), s)) \<and>
         (page_table s ! nat (get_page_number (fst rq)) = - 1 \<and> fread_data (snd rq) = [] \<longrightarrow>
            resolve s rq = Some (- 1, s\<lparr>page_faults := page_faults s + 1\<rparr>)) \<and>
         (page_table s ! nat (get_page_number (fst rq)) = - 1 \<and> fread_data (snd rq) \<noteq> [] \<longrightarrow>
            (\<exists>k s'. resolve s rq = Some (int k, s') \<and> k < 256 \<and>
               page_table s' ! nat (get_page_number (fst rq)) = int k \<and>
               tlb s' = (tlb s)[nat (next_free_tlb_index s) :=
                          \<lparr>page_number = get_page_number (fst rq), frame_number = int k,
                            valid = 1\<rparr>] \<and>
               next_free_tlb_index s' = (next_free_tlb_index s + 1) mod 16))"
proof -
  from assms(1) have inv: "vmm_inv s" by (rule reachable_inv)
  then have len: "length (page_table s) = 256" by (simp add: vmm_inv_def)
  from page_of_range [of rq] have "nat (page_of rq) < 256" by auto
  with len have idx: "nat (page_of rq) < length (page_table s)" by simp
  from assms(2) have miss: "fst (check_tlb s (page_of rq)) = - 1" by (simp add: page_of_def)
  from inv have "(page_table s ! nat (page_of rq) \<noteq> - 1 \<longrightarrow>
            resolve s rq = Some (page_table s ! nat (page_of rq), s)) \<and>
         (page_table s ! nat (page_of rq) = - 1 \<and> fread_data (snd rq) = [] \<longrightarrow>
            resolve s rq = Some (- 1, s\<lparr>page_faults := page_faults s + 1\<rparr>)) \<and>
         (page_table s ! nat (page_of rq) = - 1 \<and> fread_data (snd rq) \<noteq> [] \<longrightarrow>
            (\<exists>k s'. resolve s rq = Some (int k, s') \<and> k < 256 \<and>
               page_table s' ! nat (page_of rq) = int k \<and>
               tlb s' = (tlb s)[nat (next_free_tlb_index s) :=
                          \<lparr>page_number = page_of rq, frame_number = int k, valid = 1\<rparr>] \<and>
               next_free_tlb_index s' = (next_free_tlb_index s + 1) mod 16))"
  proof (cases rule: resolve_cases [where rq = rq])
    case tlb_hit
    with check_tlb_inv_cases [OF inv, of "page_of rq"] miss show ?thesis by auto
  next
    case table_hit
    then show ?thesis by simp
  next
    case no_data
    then show ?thesis by simp
  next
    case (load k)
    from free_set_less [OF inv load(4)] have "k < 256" .
    with load idx show ?thesis by (simp add: after_fault_simps)
  qed
  then show ?thesis by (simp add: page_of_def)
qed

theorem tlb_insert_only_on_page_fault_witness:
  "resolve state17 (0, io_full) = Some (page_table state17 ! 0, state17) \<and>
   resolve initial_state (0, io_empty) = Some (- 1, initial_state\<lparr>page_faults := 1\<rparr>) \<and>
   (\<exists>k s'. resolve initial_state (0, io_full) = Some (int k, s') \<and>
      tlb s' = (tlb initial_state)[0 := \<lparr>page_number = 0, frame_number = int k, valid = 1\<rparr>])"
proof -
  from run_seq_requests_17 obtain outs where
    r17: "run initial_state (seq_requests 17) = Some (outs, state17)" by blast
  have m17: "fst (check_tlb state17 (get_page_number (fst (0 :: 32 word, io_full)))) = - 1"
    by (simp add: get_page_number_0 check_tlb_state17)
  have b17: "page_table state17 ! nat (get_page_number (fst (0 :: 32 word, io_full))) \<noteq> - 1"
    by (simp add: get_page_number_0 page_table_state17)
  from tlb_insert_only_on_page_fault [OF r17 m17, THEN conjunct1, THEN mp, OF b17]
  have 1: "resolve state17 (0, io_full) = Some (page_table state17 ! 0, state17)"
    by (simp add: get_page_number_0)
  have r0: "run initial_state [] = Some ([], initial_state)" by simp
  have m0: "fst (check_tlb initial_state (get_page_number (fst (0 :: 32 word, io_full)))) = - 1"
    using check_tlb_initial_miss [of 0 0]
    by (simp add: get_page_number_0 initial_state_page_faults_0)
  then have me: "fst (check_tlb initial_state (get_page_number (fst (0 :: 32 word, io_empty)))) = - 1"
    by simp
  have ue: "page_table initial_state ! nat (get_page_number (fst (0 :: 32 word, io_empty))) = - 1 \<and>
      fread_data (snd (0 :: 32 word, io_empty)) = []"
    using page_table_initial [of 0] by (simp add: get_page_number_0 io_empty_def)
  from tlb_insert_only_on_page_fault [OF r0 me, THEN conjunct2, THEN conjunct1, THEN mp, OF ue]
  have 2: "resolve initial_state (0, io_empty) = Some (- 1, initial_state\<lparr>page_faults := 1\<rparr>)"
    by (simp add: get_page_number_0) (simp add: initial_state_eq)
  have u0: "page_table initial_state ! nat (get_page_number (fst (0 :: 32 word, io_full))) = - 1 \<and>
      fread_data (snd (0 :: 32 word, io_full)) \<noteq> []"
    using page_table_initial [of 0] by (simp add: get_page_number_0 io_full_def)
  have c0: "nat (next_free_tlb_index initial_state) = 0"
    by (simp add: initial_state_eq)
  from tlb_insert_only_on_page_fault [OF r0 m0, THEN conjunct2, THEN conjunct2, THEN mp, OF u0]
  have "\<exists>k s'. resolve initial_state (0, io_full) = Some (int k, s') \<and>
      tlb s' = (tlb initial_state)[0 := \<lparr>page_number = 0, frame_number = int k, valid = 1\<rparr>]"
    by (auto simp add: get_page_number_0 c0)
  with 1 2 show ?thesis by blast
qed



text \<open>
  C3. The TLB has 16 slots, so it never holds more than 16 valid entries, in every state of
  a run. \<^verbatim>\<open>update_tlb\<close> writes the slot under the cursor, marks it valid and moves the
  cursor on by one modulo 16, whatever the slot held. After an insertion of a page followed
  by 16 insertions of other pages, all 17 distinct, a lookup of the first page misses.
\<close>

theorem tlb_fifo_eviction:
  "(run initial_state rqs = Some (outs, t) \<longrightarrow> tlb_ok t \<and> valid_count t \<le> 16) \<and>
   (tlb_ok s \<longrightarrow>
      valid_count s \<le> 16 \<and>
      update_tlb s pn fn =
        Some (s\<lparr>tlb := (tlb s)[nat (next_free_tlb_index s) :=
                          \<lparr>page_number = pn, frame_number = fn, valid = 1\<rparr>],
                next_free_tlb_index := (next_free_tlb_index s + 1) mod 16\<rparr>) \<and>
      (length xs = 16 \<and> distinct (map fst (x # xs)) \<longrightarrow>
         (\<exists>s'. insert_all s (x # xs) = Some s' \<and> tlb_ok s' \<and> valid_count s' \<le> 16 \<and>
               check_tlb s' (fst x) = (- 1, s'))))"
proof (intro conjI impI)
  assume "run initial_state rqs = Some (outs, t)"
  then have "vmm_inv t" by (rule reachable_inv)
  then show "tlb_ok t" by (simp add: vmm_inv_def)
  then show "valid_count t \<le> 16" by (simp add: tlb_ok_def valid_count_le)
next
  assume ok: "tlb_ok s"
  then show "valid_count s \<le> 16" by (simp add: tlb_ok_def valid_count_le)
  from ok show "update_tlb s pn fn =
        Some (s\<lparr>tlb := (tlb s)[nat (next_free_tlb_index s) :=
                          \<lparr>page_number = pn, frame_number = fn, valid = 1\<rparr>],
                next_free_tlb_index := (next_free_tlb_index s + 1) mod 16\<rparr>)"
    by (rule update_tlb_ok)
next
  assume ok: "tlb_ok s" and xs: "length xs = 16 \<and> distinct (map fst (x # xs))"
  from update_tlb_ok [OF ok, of "fst x" "snd x"] obtain s1 where
    u: "update_tlb s (fst x) (snd x) = Some s1" by blast
  with ok have ok1: "tlb_ok s1" by (rule update_tlb_tlb_ok)
  from xs have "length xs = 16" "fst x \<notin> fst ` set xs" by auto
  from insert_all_evicts [OF ok1 this] obtain s' where
    "insert_all s1 xs = Some s'" "tlb_ok s'" "check_tlb s' (fst x) = (- 1, s')" by blast
  moreover from this(2) have "valid_count s' \<le> 16" by (simp add: tlb_ok_def valid_count_le)
  ultimately show "\<exists>s'. insert_all s (x # xs) = Some s' \<and> tlb_ok s' \<and> valid_count s' \<le> 16 \<and>
               check_tlb s' (fst x) = (- 1, s')"
    using u by simp
qed

theorem tlb_fifo_eviction_witness:
  "tlb_ok initial_state \<and>
   (\<exists>s'. insert_all initial_state ((0, 0) # map (\<lambda>i. (int i, int i)) [1..<17]) = Some s' \<and>
         check_tlb s' 0 = (- 1, s'))"
proof -
  have ok: "tlb_ok initial_state"
    using vmm_inv_initial by (simp add: vmm_inv_def)
  have len: "length (map (\<lambda>i. (int i, int i)) [1..<17]) = 16" by simp
  have "fst \<circ> (\<lambda>i. (int i, int i)) = int"
    by (simp add: fun_eq_iff)
  then have dist: "distinct (map fst ((0, 0) # map (\<lambda>i. (int i, int i)) [1..<17]))"
    by (auto simp add: distinct_map inj_on_def)
  from tlb_fifo_eviction [where s = initial_state and x = "(0, 0)"
      and xs = "map (\<lambda>i. (int i, int i)) [1..<17]",
      THEN conjunct2, THEN mp, OF ok, THEN conjunct2, THEN conjunct2, THEN mp,
      OF conjI [OF len dist]]
  obtain s' where
    "insert_all initial_state ((0, 0) # map (\<lambda>i. (int i, int i)) [1..<17]) = Some s'"
    "check_tlb s' (fst (0 :: int, 0 :: int)) = (- 1, s')"
    by blast
  with ok show ?thesis by (simp del: insert_all.simps)
qed

text \<open>
  C4, as the program has it. The claim fails when the backing store delivers nothing: the
  page stays unmapped and its next reference is counted again. Here the address 0 is
  referenced twice, \<^verbatim>\<open>fread\<close> returns 0 both times, and the second reference raises
  \<^verbatim>\<open>page_faults\<close> from 1 to 2.
\<close>

theorem page_fault_counted_twice:
  "run initial_state [(0, io_empty)] =
     Some ([\<lparr>logical_address = 0, physical_address = - 256, value_read = None\<rparr>],
           initial_state\<lparr>page_faults := 1\<rparr>) \<and>
   main_iteration (initial_state\<lparr>page_faults := 1\<rparr>) (0, io_empty) =
     Some (\<lparr>logical_address = 0, physical_address = - 256, value_read = None\<rparr>,
           initial_state\<lparr>page_faults := 2\<rparr>)"
proof -
  have e: "fread_data (snd (0 :: 32 word, io_empty)) = []" by (simp add: io_empty_def)
  from main_iteration_initial_empty [OF e, of 0] main_iteration_initial_empty [OF e, of 1]
  show ?thesis
    by (simp add: initial_state_page_faults_0 get_offset_0)
qed

text \<open>
  C4, amended. In every run the next request raises \<^verbatim>\<open>page_faults\<close> by exactly 1 when no
  earlier request for its page came with a byte from the backing store, and by 0
  otherwise, whether the TLB or the page table serves it. So when every earlier request
  for this page came with at least one byte (whatever the reads for other pages
  delivered), the counter goes up by exactly 1 on the first reference to the page and by 0
  on every later one.
\<close>

theorem page_fault_once_per_page:
  "\<exists>outs s out s'. run initial_state rqs = Some (outs, s) \<and>
     main_iteration s rq = Some (out, s') \<and>
     page_faults s' =
       page_faults s +
         (if \<exists>r\<in>set rqs. get_page_number (fst r) = get_page_number (fst rq) \<and>
               fread_data (snd r) \<noteq> []
          then 0 else 1) \<and>
     ((\<forall>r\<in>set rqs. get_page_number (fst r) = get_page_number (fst rq) \<longrightarrow>
          fread_data (snd r) \<noteq> []) \<longrightarrow>
        page_faults s' =
          page_faults s +
            (if get_page_number (fst rq) \<in> (\<lambda>r. get_page_number (fst r)) ` set rqs
             then 0 else 1))"
proof -
  from page_fault_exact [of rqs rq] obtain outs s out s' where
    run: "run initial_state rqs = Some (outs, s)" and
    m: "main_iteration s rq = Some (out, s')" and
    pf: "page_faults s' =
       page_faults s +
         (if \<exists>r\<in>set rqs. get_page_number (fst r) = get_page_number (fst rq) \<and>
               fread_data (snd r) \<noteq> []
          then 0 else 1)"
    by (auto simp: page_of_def)
  have "page_faults s' =
          page_faults s +
            (if get_page_number (fst rq) \<in> (\<lambda>r. get_page_number (fst r)) ` set rqs
             then 0 else 1)"
    if h: "\<forall>r\<in>set rqs. get_page_number (fst r) = get_page_number (fst rq) \<longrightarrow>
          fread_data (snd r) \<noteq> []"
  proof -
    from h have "(\<exists>r\<in>set rqs. get_page_number (fst r) = get_page_number (fst rq) \<and>
               fread_data (snd r) \<noteq> []) \<longleftrightarrow>
        get_page_number (fst rq) \<in> (\<lambda>r. get_page_number (fst r)) ` set rqs"
      unfolding image_iff by metis
    with pf show ?thesis by simp
  qed
  with run m pf show ?thesis by blast
qed

theorem page_fault_once_per_page_witness:
  "(\<exists>outs s out s'. run initial_state [(256, io_empty)] = Some (outs, s) \<and>
      main_iteration s (0, io_full) = Some (out, s') \<and> page_faults s' = page_faults s + 1) \<and>
   (\<exists>outs s out s'. run initial_state [(256, io_empty), (0, io_full)] = Some (outs, s) \<and>
      main_iteration s (0, io_short) = Some (out, s') \<and> page_faults s' = page_faults s) \<and>
   (\<exists>outs s out s'. run initial_state [(0, io_empty)] = Some (outs, s) \<and>
      main_iteration s (0, io_full) = Some (out, s') \<and> page_faults s' = page_faults s + 1)"
proof -
  have g: "get_page_number 256 = 1" by (simp add: get_page_number_div)
  have h1: "\<forall>r\<in>set [(256 :: 32 word, io_empty)].
      get_page_number (fst r) = get_page_number (fst (0 :: 32 word, io_full)) \<longrightarrow>
      fread_data (snd r) \<noteq> []"
    by (simp add: g get_page_number_0)
  have h2: "\<forall>r\<in>set [(256 :: 32 word, io_empty), (0, io_full)].
      get_page_number (fst r) = get_page_number (fst (0 :: 32 word, io_short)) \<longrightarrow>
      fread_data (snd r) \<noteq> []"
    by (simp add: g get_page_number_0 io_full_def)
  from page_fault_once_per_page [of "[(256, io_empty)]" "(0, io_full)"] obtain outs s out s'
    where "run initial_state [(256, io_empty)] = Some (outs, s)"
      "main_iteration s (0, io_full) = Some (out, s')"
      "(\<forall>r\<in>set [(256 :: 32 word, io_empty)].
          get_page_number (fst r) = get_page_number (fst (0 :: 32 word, io_full)) \<longrightarrow>
          fread_data (snd r) \<noteq> []) \<longrightarrow>
        page_faults s' =
          page_faults s +
            (if get_page_number (fst (0 :: 32 word, io_full))
                  \<in> (\<lambda>r. get_page_number (fst r)) ` set [(256 :: 32 word, io_empty)]
             then 0 else 1)"
    by blast
  with h1 have 1: "\<exists>outs s out s'. run initial_state [(256, io_empty)] = Some (outs, s) \<and>
      main_iteration s (0, io_full) = Some (out, s') \<and> page_faults s' = page_faults s + 1"
    by (auto simp add: g get_page_number_0 simp del: run.simps)
  from page_fault_once_per_page [of "[(256, io_empty), (0, io_full)]" "(0, io_short)"]
  obtain outs s out s'
    where "run initial_state [(256, io_empty), (0, io_full)] = Some (outs, s)"
      "main_iteration s (0, io_short) = Some (out, s')"
      "(\<forall>r\<in>set [(256 :: 32 word, io_empty), (0, io_full)].
          get_page_number (fst r) = get_page_number (fst (0 :: 32 word, io_short)) \<longrightarrow>
          fread_data (snd r) \<noteq> []) \<longrightarrow>
        page_faults s' =
          page_faults s +
            (if get_page_number (fst (0 :: 32 word, io_short))
                  \<in> (\<lambda>r. get_page_number (fst r)) `
                      set [(256 :: 32 word, io_empty), (0, io_full)]
             then 0 else 1)"
    by blast
  with h2 have 2: "\<exists>outs s out s'.
      run initial_state [(256, io_empty), (0, io_full)] = Some (outs, s) \<and>
      main_iteration s (0, io_short) = Some (out, s') \<and> page_faults s' = page_faults s"
    by (auto simp add: g get_page_number_0 simp del: run.simps)
  from page_fault_once_per_page [of "[(0, io_empty)]" "(0, io_full)"] obtain outs s out s'
    where "run initial_state [(0, io_empty)] = Some (outs, s)"
      "main_iteration s (0, io_full) = Some (out, s')"
      "page_faults s' =
         page_faults s +
           (if \<exists>r\<in>set [(0 :: 32 word, io_empty)].
                 get_page_number (fst r) = get_page_number (fst (0 :: 32 word, io_full)) \<and>
                 fread_data (snd r) \<noteq> []
            then 0 else 1)"
    by blast
  then have 3: "\<exists>outs s out s'. run initial_state [(0, io_empty)] = Some (outs, s) \<and>
      main_iteration s (0, io_full) = Some (out, s') \<and> page_faults s' = page_faults s + 1"
    by (auto simp add: io_empty_def simp del: run.simps)
  from 1 2 3 show ?thesis by blast
qed

text \<open>
  C5. The program tests \<^verbatim>\<open>fseek\<close> only to print a message and goes on to \<^verbatim>\<open>fread\<close>; it
  gives up only when \<^verbatim>\<open>fread\<close> returns 0. A short read of 100 bytes in the initial state
  takes frame 0, binds page 0 to it and fills the frame with the 100 bytes followed by
  what \<^verbatim>\<open>temp_frame\<close> held before; a full read after a failed \<^verbatim>\<open>fseek\<close> binds the page as
  well. The result of \<^verbatim>\<open>fseek\<close> has no influence on \<^verbatim>\<open>check_page_table\<close> at all.
\<close>

theorem short_read_binds_page:
  "check_page_table initial_state io_short 0 = Some (0, after_fault initial_state io_short 0 0) \<and>
   page_table (after_fault initial_state io_short 0 0) ! 0 = 0 \<and>
   number_of_free_frames (after_fault initial_state io_short 0 0) = 255 \<and>
   physical_memory (after_fault initial_state io_short 0 0) ! 0 = replicate 100 7 @ replicate 156 0 \<and>
   check_page_table initial_state io_seek_failed 0 =
     Some (0, after_fault initial_state io_seek_failed 0 0) \<and>
   page_table (after_fault initial_state io_seek_failed 0 0) ! 0 = 0 \<and>
   number_of_free_frames (after_fault initial_state io_seek_failed 0 0) = 255 \<and>
   check_page_table s (io\<lparr>fseek_result := r\<rparr>) pn = check_page_table s io pn"
proof -
  have "check_page_table initial_state io_short 0 = Some (0, after_fault initial_state io_short 0 0)"
    by (rule check_page_table_initial_load) (simp_all add: io_short_def)
  moreover have "check_page_table initial_state io_seek_failed 0 =
     Some (0, after_fault initial_state io_seek_failed 0 0)"
    by (rule check_page_table_initial_load) (simp_all add: io_seek_failed_def)
  moreover have "loaded_frame initial_state io_short = replicate 100 7 @ replicate 156 0"
    by (simp add: loaded_frame_def io_short_def initial_state_eq)
  moreover have "check_page_table s (io\<lparr>fseek_result := r\<rparr>) pn = check_page_table s io pn"
    by (simp add: check_page_table_def Let_def)
  ultimately show ?thesis
    by (simp add: after_fault_simps) (simp add: initial_state_eq)
qed

text \<open>
  C6. In every state that a run reaches: page number and offset of any address lie between
  0 and 255; a page-table entry is \<open>-1\<close> (unmapped) or a frame number between 0 and 255;
  a valid TLB entry holds a page number and a frame number between 0 and 255; the TLB
  holds at most 16 valid entries. A bound page keeps its frame in every later state, and a
  frame that some page holds is never held by another page, now or later. A request that
  loads its page from the backing store binds it, so no later request loads that page again.
\<close>

theorem run_invariants:
  "\<exists>outs s. run initial_state rqs = Some (outs, s) \<and>
     0 \<le> get_page_number a \<and> get_page_number a < 256 \<and>
     0 \<le> get_offset a \<and> get_offset a < 256 \<and>
     (\<forall>p<256. page_table s ! p = - 1 \<or> (0 \<le> page_table s ! p \<and> page_table s ! p < 256)) \<and>
     (\<forall>e\<in>set (tlb s). valid e = 1 \<longrightarrow>
        0 \<le> page_number e \<and> page_number e < 256 \<and>
        0 \<le> frame_number e \<and> frame_number e < 256) \<and>
     valid_count s \<le> 16 \<and>
     (\<forall>rqs' outs' s' p. run s rqs' = Some (outs', s') \<and> p < 256 \<and> page_table s ! p \<noteq> - 1 \<longrightarrow>
        page_table s' ! p = page_table s ! p \<and>
        (\<forall>q<256. page_table s' ! q = page_table s ! p \<longrightarrow> q = p)) \<and>
     (\<forall>rq rqs' outs' s' rq'.
        loads_page s rq \<and> run s (rq # rqs') = Some (outs', s') \<and>
        get_page_number (fst rq') = get_page_number (fst rq) \<longrightarrow> \<not> loads_page s' rq')"
proof -
  from run_reachable_inv [of rqs] obtain outs s where
    run: "run initial_state rqs = Some (outs, s)" and inv: "vmm_inv s" by blast
  from inv have pt: "\<forall>p<256. page_table s ! p = - 1 \<or>
      (0 \<le> page_table s ! p \<and> page_table s ! p < 256)"
    by (simp add: vmm_inv_def) blast
  have tl: "\<forall>e\<in>set (tlb s). valid e = 1 \<longrightarrow>
        0 \<le> page_number e \<and> page_number e < 256 \<and>
        0 \<le> frame_number e \<and> frame_number e < 256"
  proof (intro ballI impI)
    fix e assume "e \<in> set (tlb s)" "valid e = 1"
    with inv have e: "0 \<le> page_number e" "page_number e < 256"
      "page_table s ! nat (page_number e) = frame_number e" "frame_number e \<noteq> - 1"
      by (auto simp: vmm_inv_def)
    then have "nat (page_number e) < 256" by auto
    with pt e(3,4) have "0 \<le> frame_number e \<and> frame_number e < 256" by metis
    with e(1,2) show "0 \<le> page_number e \<and> page_number e < 256 \<and>
        0 \<le> frame_number e \<and> frame_number e < 256"
      by simp
  qed
  from inv have vc: "valid_count s \<le> 16"
    by (simp add: vmm_inv_def tlb_ok_def valid_count_le)
  have keep: "\<forall>rqs' outs' s' p. run s rqs' = Some (outs', s') \<and> p < 256 \<and> page_table s ! p \<noteq> - 1 \<longrightarrow>
        page_table s' ! p = page_table s ! p \<and>
        (\<forall>q<256. page_table s' ! q = page_table s ! p \<longrightarrow> q = p)"
  proof (intro allI impI)
    fix rqs' outs' s' p
    assume a: "run s rqs' = Some (outs', s') \<and> p < 256 \<and> page_table s ! p \<noteq> - 1"
    then have same: "page_table s' ! p = page_table s ! p"
      using run_keeps_bound [OF inv] by blast
    from run_inv [OF inv, of rqs'] a have "vmm_inv s'" by auto
    then have inj: "\<forall>p<256. \<forall>q<256. page_table s' ! p \<noteq> - 1 \<longrightarrow>
        page_table s' ! p = page_table s' ! q \<longrightarrow> p = q"
      by (simp add: vmm_inv_def)
    have "\<forall>q<256. page_table s' ! q = page_table s ! p \<longrightarrow> q = p"
    proof (intro allI impI)
      fix q :: nat assume "q < 256" "page_table s' ! q = page_table s ! p"
      with a same have "page_table s' ! p \<noteq> - 1" "page_table s' ! p = page_table s' ! q" by simp_all
      with inj a \<open>q < 256\<close> show "q = p" by metis
    qed
    with same show "page_table s' ! p = page_table s ! p \<and>
        (\<forall>q<256. page_table s' ! q = page_table s ! p \<longrightarrow> q = p)" ..
  qed
  have once: "\<forall>rq rqs' outs' s' rq'.
        loads_page s rq \<and> run s (rq # rqs') = Some (outs', s') \<and>
        get_page_number (fst rq') = get_page_number (fst rq) \<longrightarrow> \<not> loads_page s' rq'"
  proof (intro allI impI)
    fix rq rq' :: request and rqs' :: "request list" and outs' :: "report_line list" and s'
    assume a: "loads_page s rq \<and> run s (rq # rqs') = Some (outs', s') \<and>
        get_page_number (fst rq') = get_page_number (fst rq)"
    then have un: "page_table s ! nat (page_of rq) = - 1" and data: "fread_data (snd rq) \<noteq> []"
      by (simp_all add: loads_page_def)
    from main_iteration_effect [OF inv, of rq] un data obtain out s1 where
      m: "main_iteration s rq = Some (out, s1)" and inv1: "vmm_inv s1" and
      b: "page_table s1 ! nat (page_of rq) \<noteq> - 1"
      by auto
    from a m obtain outs1 where r: "run s1 rqs' = Some (outs1, s')"
      by (auto split: option.splits)
    from page_of_range [of rq] have "nat (page_of rq) < 256" by auto
    from run_keeps_bound [OF inv1 r this b] b
    have "page_table s' ! nat (page_of rq) \<noteq> - 1" by simp
    moreover from a have "page_of rq' = page_of rq" by (simp add: page_of_def)
    ultimately show "\<not> loads_page s' rq'" by (simp add: loads_page_def)
  qed
  from run pt tl vc keep once get_page_number_range [of a] get_offset_range [of a]
  show ?thesis by blast
qed

theorem run_invariants_witness:
  "map_option snd (run initial_state [(0, io_full)]) = Some (loaded_state 1) \<and>
   page_table (loaded_state 1) ! 0 = 0 \<and>
   tlb (loaded_state 1) ! 0 = \<lparr>page_number = 0, frame_number = 0, valid = 1\<rparr> \<and>
   valid_count (loaded_state 1) \<le> 16 \<and>
   loads_page initial_state (0, io_full) \<and>
   \<not> loads_page (loaded_state 1) (0, io_short)"
proof -
  from run_first_request obtain outs1 where
    r1: "run initial_state [(0, io_full)] = Some (outs1, loaded_state 1)" by blast
  from run_invariants [of "[(0, io_full)]" 0] obtain outs s where
    "run initial_state [(0, io_full)] = Some (outs, s)" "valid_count s \<le> 16"
    by blast
  with r1 have vc: "valid_count (loaded_state 1) \<le> 16" by simp
  have lp: "loads_page initial_state (0, io_full)"
    using check_tlb_initial_miss [of 0 0] page_table_initial [of 0]
    by (simp add: loads_page_def page_of_def get_page_number_0 io_full_def
        initial_state_page_faults_0)
  from run_invariants [of "[]" 0] obtain outs0 s0 where
    r0: "run initial_state [] = Some (outs0, s0)" and
    once: "\<forall>rq rqs' outs' s' rq'.
        loads_page s0 rq \<and> run s0 (rq # rqs') = Some (outs', s') \<and>
        get_page_number (fst rq') = get_page_number (fst rq) \<longrightarrow> \<not> loads_page s' rq'"
    by blast
  from r0 have "s0 = initial_state" by simp
  with once [rule_format, of "(0, io_full)" "[]" outs1 "loaded_state 1" "(0, io_short)"] lp r1
  have "\<not> loads_page (loaded_state 1) (0, io_short)"
    by (simp del: run.simps)
  moreover have "page_table (loaded_state 1) ! 0 = 0"
    by (simp add: loaded_state_def)
  moreover have "tlb (loaded_state 1) ! 0 = \<lparr>page_number = 0, frame_number = 0, valid = 1\<rparr>"
    by (simp add: tlb_loaded_state_nth)
  ultimately show ?thesis using r1 vc lp by simp
qed

text \<open>
  C7. The page number of a logical address is \<open>(A >> 8) & 0xFF\<close>, its offset is
  \<open>A & 0xFF\<close>, both depend only on \<open>A\<close> modulo 65536 and lie between 0 and 255, and the
  physical address of a request is \<open>F * 256 + offset\<close> for the frame number \<open>F\<close> that the
  TLB or the page table gives. The two functions are HOL functions, so they are total and
  deterministic; the last part is stated for every state that a run reaches, where a frame
  number is always produced.
\<close>

theorem address_decomposition:
  "get_page_number a = uint (drop_bit 8 a AND 255) \<and>
   get_offset a = uint (a AND 255) \<and>
   get_page_number a = uint a mod 65536 div 256 \<and>
   get_page_number a = uint a div 256 mod 256 \<and>
   get_offset a = uint a mod 65536 mod 256 \<and>
   get_page_number (a AND 65535) = get_page_number a \<and>
   get_offset (a AND 65535) = get_offset a \<and>
   0 \<le> get_page_number a \<and> get_page_number a < 256 \<and>
   0 \<le> get_offset a \<and> get_offset a < 256 \<and>
   (\<exists>outs s F s' out.
      run initial_state rqs = Some (outs, s) \<and>
      resolve s (a, io) = Some (F, s') \<and>
      main_iteration s (a, io) = Some (out, s') \<and>
      physical_address out = F * 256 + get_offset a)"
proof -
  from run_reachable_inv [of rqs] obtain outs s where
    run: "run initial_state rqs = Some (outs, s)" and inv: "vmm_inv s" by blast
  from resolve_inv [OF inv, of "(a, io)"] obtain F s' where
    r: "resolve s (a, io) = Some (F, s')" by blast
  then have "main_iteration s (a, io) =
      Some (\<lparr>logical_address = sint a, physical_address = F * 256 + get_offset a,
              value_read = read_physical_memory s' F (get_offset a)\<rparr>, s')"
    by (simp add: main_iteration_def)
  with run r have "\<exists>outs s F s' out.
      run initial_state rqs = Some (outs, s) \<and>
      resolve s (a, io) = Some (F, s') \<and>
      main_iteration s (a, io) = Some (out, s') \<and>
      physical_address out = F * 256 + get_offset a"
    by simp
  moreover have "get_offset a = uint (a AND 255)"
    by (simp add: get_offset_def OFFSET_MASK_def)
  moreover have "get_page_number a = uint a mod 65536 div 256"
    by (simp only: get_page_number_div mod_div_256)
  moreover have "get_offset a = uint a mod 65536 mod 256"
    by (simp only: get_offset_mod mod_mod_256)
  ultimately show ?thesis
    using get_page_number_shift [of a] get_page_number_div [of a]
      get_page_number_low16 [of a] get_offset_low16 [of a]
      get_page_number_range [of a] get_offset_range [of a]
    by blast
qed

theorem address_decomposition_witness:
  "get_page_number 74565 = 35 \<and> get_offset 74565 = 69 \<and>
   (\<exists>out s'. main_iteration initial_state (74565, io_full) = Some (out, s') \<and>
      physical_address out = 69)"
proof -
  have "uint (74565 :: 32 word) = 74565" by simp
  moreover have "resolve initial_state (74565, io_full) =
      Some (0, after_fault initial_state io_full 35 0)"
    using check_page_table_initial_load [of 35 io_full]
      check_tlb_cold [of initial_state 35]
    by (simp add: resolve_def Let_def get_page_number_div io_full_def) (simp add: initial_state_eq)
  ultimately show ?thesis
    using address_decomposition [of 74565 "[]" io_full]
    by auto
qed

text \<open>
  C8. \<^verbatim>\<open>check_tlb\<close> goes through the slots from index 0 upwards and answers with the frame
  number of the first valid entry that holds the page; it counts a hit in \<^verbatim>\<open>tlb_hits\<close>
  exactly then. \<^verbatim>\<open>check_page_table\<close> never changes \<^verbatim>\<open>tlb_hits\<close>, so over one request
  the counter grows by one if some slot matches and stays as it is otherwise.
\<close>

theorem tlb_lookup_first_match:
  assumes "length (tlb s) = TLB_SIZE"
  shows "((\<forall>i<TLB_SIZE. \<not> tlb_match pn (tlb s ! i)) \<longrightarrow> check_tlb s pn = (- 1, s)) \<and>
         (i < TLB_SIZE \<and> tlb_match pn (tlb s ! i) \<and> (\<forall>j<i. \<not> tlb_match pn (tlb s ! j)) \<longrightarrow>
            check_tlb s pn = (frame_number (tlb s ! i), s\<lparr>tlb_hits := tlb_hits s + 1\<rparr>)) \<and>
         (check_page_table s io pn = Some (fn, s') \<longrightarrow> tlb_hits s' = tlb_hits s) \<and>
         (resolve s rq = Some (fn, s') \<longrightarrow>
            tlb_hits s' = tlb_hits s +
              (if \<exists>i<TLB_SIZE. tlb_match (get_page_number (fst rq)) (tlb s ! i) then 1 else 0))"
proof (intro conjI impI)
  assume "\<forall>i<TLB_SIZE. \<not> tlb_match pn (tlb s ! i)"
  with assms have "\<forall>e\<in>set (tlb s). \<not> tlb_match pn e"
    by (simp add: all_set_conv_all_nth)
  with assms show "check_tlb s pn = (- 1, s)" by (rule check_tlb_miss)
next
  assume "i < TLB_SIZE \<and> tlb_match pn (tlb s ! i) \<and> (\<forall>j<i. \<not> tlb_match pn (tlb s ! j))"
  with assms show "check_tlb s pn = (frame_number (tlb s ! i), s\<lparr>tlb_hits := tlb_hits s + 1\<rparr>)"
    by (intro check_tlb_hit) simp_all
next
  assume "check_page_table s io pn = Some (fn, s')"
  then show "tlb_hits s' = tlb_hits s" by (rule check_page_table_tlb_hits)
next
  assume r: "resolve s rq = Some (fn, s')"
  let ?pn = "get_page_number (fst rq)"
  have "(\<forall>e\<in>set (tlb s). \<not> tlb_match ?pn e) \<longleftrightarrow> (\<forall>i<TLB_SIZE. \<not> tlb_match ?pn (tlb s ! i))"
    using assms by (simp add: all_set_conv_all_nth)
  then have ex: "(\<exists>i<TLB_SIZE. tlb_match ?pn (tlb s ! i)) \<longleftrightarrow> (\<exists>e\<in>set (tlb s). tlb_match ?pn e)"
    by blast
  show "tlb_hits s' = tlb_hits s + (if \<exists>i<TLB_SIZE. tlb_match ?pn (tlb s ! i) then 1 else 0)"
  proof (cases "find (tlb_match ?pn) (tlb s)")
    case None
    then have no: "\<not> (\<exists>e\<in>set (tlb s). tlb_match ?pn e)" by (simp add: find_None_iff)
    from None assms have "check_tlb s ?pn = (- 1, s)" by (simp add: check_tlb_find)
    with r have "check_page_table s (snd rq) ?pn = Some (fn, s')"
      by (simp add: resolve_def)
    from check_page_table_tlb_hits [OF this] no ex show ?thesis by simp
  next
    case (Some e)
    then have yes: "\<exists>e\<in>set (tlb s). tlb_match ?pn e" by (auto simp: find_Some_iff)
    from Some assms have c: "check_tlb s ?pn = (frame_number e, s\<lparr>tlb_hits := tlb_hits s + 1\<rparr>)"
      by (simp add: check_tlb_find)
    show ?thesis
    proof (cases "frame_number e = - 1")
      case False
      with c r yes ex show ?thesis by (auto simp add: resolve_def)
    next
      case True
      with c r have "check_page_table (s\<lparr>tlb_hits := tlb_hits s + 1\<rparr>) (snd rq) ?pn = Some (fn, s')"
        by (simp add: resolve_def)
      from check_page_table_tlb_hits [OF this] yes ex show ?thesis by simp
    qed
  qed
qed

theorem tlb_lookup_first_match_witness:
  "check_tlb (loaded_state 2) 1 = (1, (loaded_state 2)\<lparr>tlb_hits := 1\<rparr>) \<and>
   check_tlb (loaded_state 2) 5 = (- 1, loaded_state 2)"
proof -
  have len: "length (tlb (loaded_state 2)) = TLB_SIZE"
    by (simp add: tlb_loaded_state_length TLB_SIZE_def)
  have hit: "1 < TLB_SIZE \<and> tlb_match 1 (tlb (loaded_state 2) ! 1) \<and>
      (\<forall>j<1. \<not> tlb_match 1 (tlb (loaded_state 2) ! j))"
    by (simp add: tlb_loaded_state_nth tlb_match_def TLB_SIZE_def)
  have miss: "\<forall>i<TLB_SIZE. \<not> tlb_match 5 (tlb (loaded_state 2) ! i)"
    by (simp add: tlb_loaded_state_nth tlb_match_def TLB_SIZE_def)
  have "frame_number (tlb (loaded_state 2) ! 1) = 1" "tlb_hits (loaded_state 2) = 0"
    by (simp_all add: tlb_loaded_state_nth) (simp add: loaded_state_def)
  with hit miss show ?thesis
    using tlb_lookup_first_match [OF len, of 1 1] tlb_lookup_first_match [OF len, of 5]
    by simp
qed

text \<open>
  C9. With the counter in step with the free list, \<^verbatim>\<open>get_next_free_frame\<close> returns the
  lowest free frame, marks it occupied and lowers the counter by one; with an empty free
  list it returns \<open>-1\<close> and changes nothing. The free list of a later state of a run is
  always a subset of the free list of an earlier one, and the counter is in step with the
  list in every state that a run from the initial state reaches.
\<close>

theorem frame_allocator_lowest_free:
  "(frames_ok s \<and> free_set s = {} \<longrightarrow> get_next_free_frame s = Some (- 1, s)) \<and>
   (frames_ok s \<and> free_set s \<noteq> {} \<longrightarrow>
      (\<exists>k s'. get_next_free_frame s = Some (int k, s') \<and>
         k \<in> free_set s \<and> (\<forall>j\<in>free_set s. k \<le> j) \<and>
         free_set s' = free_set s - {k} \<and>
         number_of_free_frames s' = number_of_free_frames s - 1 \<and>
         frames_ok s')) \<and>
   (run s rqs = Some (outs, u) \<longrightarrow> free_set u \<subseteq> free_set s) \<and>
   (run initial_state rqs = Some (outs, t) \<longrightarrow> frames_ok t)"
proof (intro conjI impI)
  assume "frames_ok s \<and> free_set s = {}"
  then show "get_next_free_frame s = Some (- 1, s)"
    by (simp add: get_next_free_frame_none)
next
  assume a: "frames_ok s \<and> free_set s \<noteq> {}"
  then have ok: "frames_ok s" and ne: "free_set s \<noteq> {}" by simp_all
  let ?s' = "\<lambda>k. s\<lparr>free_frames := (free_frames s)[k := - 1],
                     number_of_free_frames := number_of_free_frames s - 1\<rparr>"
  from get_next_free_frame_some [OF ok ne] obtain k where
    k: "k \<in> free_set s" "\<forall>j\<in>free_set s. k \<le> j" and
    g: "get_next_free_frame s = Some (int k, ?s' k)"
    by blast
  from k(1) have "k < length (free_frames s)" by (simp add: free_set_def)
  then have "free_set (?s' k) = free_set s - {k}" by (rule free_set_update)
  moreover have "frames_ok (?s' k)"
    using ok g by (rule get_next_free_frame_frames_ok)
  ultimately show "\<exists>k s'. get_next_free_frame s = Some (int k, s') \<and>
         k \<in> free_set s \<and> (\<forall>j\<in>free_set s. k \<le> j) \<and>
         free_set s' = free_set s - {k} \<and>
         number_of_free_frames s' = number_of_free_frames s - 1 \<and>
         frames_ok s'"
    using k g by (intro exI [of _ k] exI [of _ "?s' k"]) simp
next
  assume "run s rqs = Some (outs, u)"
  then show "free_set u \<subseteq> free_set s" by (rule run_free_set)
next
  assume "run initial_state rqs = Some (outs, t)"
  then have "vmm_inv t" by (rule reachable_inv)
  then show "frames_ok t" by (simp add: vmm_inv_def)
qed

theorem frame_allocator_lowest_free_witness:
  "frames_ok initial_state \<and> free_set initial_state = {..<256} \<and>
   (\<exists>s'. get_next_free_frame initial_state = Some (0, s') \<and> free_set s' = {..<256} - {0}) \<and>
   frames_ok no_frame_left \<and> free_set no_frame_left = {} \<and>
   get_next_free_frame no_frame_left = Some (- 1, no_frame_left)"
proof -
  have ok: "frames_ok initial_state"
    using vmm_inv_initial by (simp add: vmm_inv_def)
  have z: "0 \<in> free_set initial_state" by (simp add: free_set_initial)
  then have ne: "free_set initial_state \<noteq> {}" by blast
  have e: "free_set no_frame_left = {}"
    by (auto simp: free_set_def no_frame_left_def)
  then have ok': "frames_ok no_frame_left"
    by (simp add: frames_ok_def) (simp add: no_frame_left_def)
  from frame_allocator_lowest_free [where s = initial_state,
      THEN conjunct2, THEN conjunct1, THEN mp, OF conjI [OF ok ne]]
  obtain k s' where g: "get_next_free_frame initial_state = Some (int k, s')"
    and least: "\<forall>j\<in>free_set initial_state. k \<le> j"
    and fs: "free_set s' = free_set initial_state - {k}"
    by blast
  from least z have "k = 0" by auto
  with g fs have "\<exists>s'. get_next_free_frame initial_state = Some (0, s') \<and>
      free_set s' = {..<256} - {0}"
    by (simp add: free_set_initial)
  moreover from frame_allocator_lowest_free [where s = no_frame_left,
      THEN conjunct1, THEN mp, OF conjI [OF ok' e]]
  have "get_next_free_frame no_frame_left = Some (- 1, no_frame_left)" .
  ultimately show ?thesis using ok ok' e by (simp add: free_set_initial)
qed

text \<open>
  C10. When \<^verbatim>\<open>fread\<close> delivers no byte during a page fault, \<^verbatim>\<open>check_page_table\<close> counts the
  fault and returns \<open>-1\<close>; nothing else changes: no frame is taken, the page table and the
  TLB stay as they are. The page is still unmapped, so in any state of a run \<open>n\<close> such
  references to one and the same page raise the counter by \<open>n\<close>: the number of page faults
  is not bounded by the number of distinct pages.
\<close>

theorem empty_read_faults_again:
  "(0 \<le> pn \<and> pn < 256 \<and> page_table s ! nat pn = - 1 \<and> fread_data io = [] \<longrightarrow>
      check_page_table s io pn = Some (- 1, s\<lparr>page_faults := page_faults s + 1\<rparr>)) \<and>
   (run initial_state rqs = Some (outs, t) \<and> page_table t ! nat (get_page_number a) = - 1 \<and>
    fread_data io = [] \<longrightarrow>
      (\<exists>outs'. run t (replicate n (a, io)) =
         Some (outs', t\<lparr>page_faults := page_faults t + int n\<rparr>)))"
proof (intro conjI impI)
  assume "0 \<le> pn \<and> pn < 256 \<and> page_table s ! nat pn = - 1 \<and> fread_data io = []"
  then show "check_page_table s io pn = Some (- 1, s\<lparr>page_faults := page_faults s + 1\<rparr>)"
    by (simp add: check_page_table_empty_read)
next
  assume a: "run initial_state rqs = Some (outs, t) \<and>
    page_table t ! nat (get_page_number a) = - 1 \<and> fread_data io = []"
  then have "vmm_inv t" using reachable_inv by blast
  with a show "\<exists>outs'. run t (replicate n (a, io)) =
         Some (outs', t\<lparr>page_faults := page_faults t + int n\<rparr>)"
    by (simp add: run_empty_reads_unmapped)
qed

theorem empty_read_faults_again_witness:
  "check_page_table initial_state io_empty 0 = Some (- 1, initial_state\<lparr>page_faults := 1\<rparr>) \<and>
   map_option snd (run initial_state (replicate 3 (0, io_empty))) =
     Some (initial_state\<lparr>page_faults := 3\<rparr>)"
proof -
  have un: "page_table initial_state ! nat 0 = - 1"
    using page_table_initial [of 0] by simp
  have e: "fread_data io_empty = []" by (simp add: io_empty_def)
  have run: "run initial_state [] = Some ([], initial_state)" by simp
  have pf: "page_faults initial_state = 0" by (simp add: initial_state_eq)
  from empty_read_faults_again [where s = initial_state and pn = 0 and io = io_empty,
      THEN conjunct1, THEN mp] un e
  have 1: "check_page_table initial_state io_empty 0 =
      Some (- 1, initial_state\<lparr>page_faults := page_faults initial_state + 1\<rparr>)"
    by simp
  from un have "page_table initial_state ! nat (get_page_number 0) = - 1"
    by (simp add: get_page_number_0)
  with empty_read_faults_again [where rqs = "[]" and outs = "[]" and t = initial_state
      and a = 0 and io = io_empty and n = 3, THEN conjunct2, THEN mp] run e
  obtain outs' where "run initial_state (replicate 3 (0, io_empty)) =
      Some (outs', initial_state\<lparr>page_faults := page_faults initial_state + int 3\<rparr>)"
    by blast
  with 1 pf show ?thesis by simp
qed

section \<open>Two further properties\<close>

text \<open>
  X1. In every state of a run a request gets a frame number between 0 and 255, and \<^verbatim>\<open>main\<close>
  reads a byte of that frame, unless the page is unmapped and \<^verbatim>\<open>fread\<close> delivers nothing;
  only then the frame number is \<open>-1\<close> and the read is outside the array. In particular a
  page fault always finds a free frame: there are 256 frames and page numbers have 8 bits.
\<close>

theorem frame_number_in_range:
  "\<exists>outs s F s' out.
     run initial_state rqs = Some (outs, s) \<and>
     resolve s rq = Some (F, s') \<and>
     main_iteration s rq = Some (out, s') \<and>
     (if page_table s ! nat (get_page_number (fst rq)) = - 1 \<and> fread_data (snd rq) = []
      then F = - 1 \<and> value_read out = None
      else 0 \<le> F \<and> F < 256 \<and>
           value_read out = Some (sint (physical_memory s' ! nat F ! nat (get_offset (fst rq)))))"
proof -
  from run_reachable_inv [of rqs] obtain outs s where
    run: "run initial_state rqs = Some (outs, s)" and inv: "vmm_inv s" by blast
  from resolve_frame [OF inv, of rq] obtain F s' where
    r: "resolve s rq = Some (F, s')" and
    F: "if page_table s ! nat (page_of rq) = - 1 \<and> fread_data (snd rq) = []
        then F = - 1 else 0 \<le> F \<and> F < 256"
    by blast
  let ?out = "\<lparr>logical_address = sint (fst rq),
               physical_address = F * 256 + get_offset (fst rq),
               value_read = read_physical_memory s' F (get_offset (fst rq))\<rparr>"
  from r have m: "main_iteration s rq = Some (?out, s')"
    by (simp add: main_iteration_def)
  from F get_offset_range [of "fst rq"]
  have "if page_table s ! nat (get_page_number (fst rq)) = - 1 \<and> fread_data (snd rq) = []
      then F = - 1 \<and> value_read ?out = None
      else 0 \<le> F \<and> F < 256 \<and>
           value_read ?out = Some (sint (physical_memory s' ! nat F ! nat (get_offset (fst rq))))"
    by (simp add: read_physical_memory_def page_of_def)
  with run r m show ?thesis by blast
qed

theorem frame_number_in_range_witness:
  "(\<exists>s'. resolve initial_state (0, io_empty) = Some (- 1, s')) \<and>
   (\<exists>F s'. resolve initial_state (0, io_full) = Some (F, s') \<and> 0 \<le> F \<and> F < 256)"
proof -
  have un: "page_table initial_state ! nat (get_page_number (fst (0 :: 32 word, io_empty))) = - 1"
    using page_table_initial [of 0] by (simp add: get_page_number_0)
  have e: "fread_data (snd (0 :: 32 word, io_empty)) = []" by (simp add: io_empty_def)
  have f: "fread_data (snd (0 :: 32 word, io_full)) \<noteq> []" by (simp add: io_full_def)
  from frame_number_in_range [of "[]" "(0, io_empty)"] un e
  have 1: "\<exists>s'. resolve initial_state (0, io_empty) = Some (- 1, s')"
    by auto
  from frame_number_in_range [of "[]" "(0, io_full)"] f
  have 2: "\<exists>F s'. resolve initial_state (0, io_full) = Some (F, s') \<and> 0 \<le> F \<and> F < 256"
    by auto
  from 1 2 show ?thesis ..
qed

text \<open>
  X2. When a request loads its page and \<^verbatim>\<open>fread\<close> delivers all 256 bytes, the frame that
  the page is bound to holds exactly these bytes after the request and in every later state
  of the run.
\<close>

theorem loaded_page_stays_in_memory:
  assumes "run initial_state rqs = Some (outs, s)"
    and "loads_page s rq"
    and "length (fread_data (snd rq)) = 256"
    and "run s (rq # rqs') = Some (outs', s')"
  shows "\<exists>k<256. page_table s' ! nat (get_page_number (fst rq)) = int k \<and>
           physical_memory s' ! k = fread_data (snd rq)"
proof -
  from assms(1) have inv: "vmm_inv s" by (rule reachable_inv)
  then have lens: "length (page_table s) = 256" "length (physical_memory s) = 256"
      "length (free_frames s) = 256" "length (temp_frame s) = 256"
    by (simp_all add: vmm_inv_def frames_ok_def)
  from page_of_range [of rq] have p: "nat (page_of rq) < 256" by auto
  from assms(2) have miss: "fst (check_tlb s (page_of rq)) = - 1"
    and un: "page_table s ! nat (page_of rq) = - 1" and data: "fread_data (snd rq) \<noteq> []"
    by (simp_all add: loads_page_def)
  from inv obtain k where k: "k \<in> free_set s"
    and r: "resolve s rq = Some (int k, after_fault s (snd rq) (page_of rq) k)"
  proof (cases rule: resolve_cases [where rq = rq])
    case tlb_hit
    with un show ?thesis by simp
  next
    case table_hit
    with un show ?thesis by simp
  next
    case no_data
    with data show ?thesis by simp
  next
    case (load k)
    with that show ?thesis by blast
  qed
  let ?s1 = "after_fault s (snd rq) (page_of rq) k"
  from free_set_less [OF inv k] have k256: "k < 256" .
  from r obtain out where m: "main_iteration s rq = Some (out, ?s1)"
    by (simp add: main_iteration_def)
  with assms(4) obtain outs1 where run1: "run ?s1 rqs' = Some (outs1, s')"
    by (auto split: option.splits)
  from page_of_range [of rq] have "0 \<le> page_of rq" "page_of rq < 256" by simp_all
  from vmm_inv_after_fault [OF inv this un k] have inv1: "vmm_inv ?s1" .
  have b1: "page_table ?s1 ! nat (page_of rq) = int k"
    using p lens by (simp add: after_fault_simps)
  have f1: "free_frames ?s1 ! k = - 1"
    using k256 lens by (simp add: after_fault_simps)
  have m1: "physical_memory ?s1 ! k = fread_data (snd rq)"
    using k256 lens assms(3) by (simp add: after_fault_simps loaded_frame_full)
  from b1 have "page_table ?s1 ! nat (page_of rq) \<noteq> - 1" by simp
  from run_keeps_bound [OF inv1 run1 p this] b1
  have "page_table s' ! nat (page_of rq) = int k" by simp
  moreover from run_keeps_frame [OF inv1 run1 k256 f1] m1
  have "physical_memory s' ! k = fread_data (snd rq)" by simp
  ultimately show ?thesis using k256 by (auto simp: page_of_def)
qed

theorem loaded_page_stays_in_memory_witness:
  "loads_page initial_state (0, io_full) \<and>
   map_option snd (run initial_state [(0, io_full)]) = Some (loaded_state 1) \<and>
   page_table (loaded_state 1) ! 0 = 0 \<and>
   physical_memory (loaded_state 1) ! 0 = fread_data io_full"
proof -
  have r0: "run initial_state [] = Some ([], initial_state)" by simp
  have lp: "loads_page initial_state (0, io_full)"
    using check_tlb_initial_miss [of 0 0] page_table_initial [of 0]
    by (simp add: loads_page_def page_of_def get_page_number_0 io_full_def
        initial_state_page_faults_0)
  have len: "length (fread_data (snd (0 :: 32 word, io_full))) = 256"
    by (simp add: io_full_def)
  from run_first_request obtain outs1 where
    r1: "run initial_state [(0, io_full)] = Some (outs1, loaded_state 1)" by blast
  have pt: "page_table (loaded_state 1) ! 0 = 0"
    by (simp add: loaded_state_def)
  from loaded_page_stays_in_memory [OF r0 lp len r1] obtain k where
    "page_table (loaded_state 1) ! nat (get_page_number (fst (0 :: 32 word, io_full))) = int k"
    "physical_memory (loaded_state 1) ! k = fread_data (snd (0 :: 32 word, io_full))"
    by blast
  with pt have "physical_memory (loaded_state 1) ! 0 = fread_data io_full"
    by (simp add: get_page_number_0)
  with lp r1 pt show ?thesis by simp
qed

end
